theory Spec2Isabelle
  imports Main "HOL-Library.Word"
begin

unbundle bit_operations_syntax

section \<open>Data model of the display application (ARM/fpga\_lpr\_display.c)\<close>

type_synonym u8 = "8 word"
type_synonym u32 = "32 word"
type_synonym u64 = "64 word"

text \<open>A C \<^verbatim>\<open>int\<close> where its width matters: a 32-bit word, read as two's complement by \<open>sint\<close>.\<close>

type_synonym s32 = "32 word"

text \<open>
  \<^verbatim>\<open>struct frame_slot { uint8_t *data; bool in_use; uint64_t generation; }\<close>.
  The backing buffer is kept as the list of its bytes.
\<close>

record frame_slot =
  data :: "u8 list"
  in_use :: bool
  generation :: u64

text \<open>
  \<^verbatim>\<open>struct slot_ticket { int idx; uint64_t generation; }\<close>. The second field is named
  \<open>ticket_generation\<close> here, because a record field name is a constant and
  \<open>generation\<close> is already the field of \<open>frame_slot\<close>.
\<close>

record slot_ticket =
  idx :: int
  ticket_generation :: u64

text \<open>
  The fields of \<^verbatim>\<open>struct app_ctx\<close> that the pool, the inference mailbox and the capture
  loop read or write. \<open>slots_cond_signals\<close> and \<open>infer_cond_signals\<close> count the calls
  of \<^verbatim>\<open>g_cond_signal(&ctx->slots_cond)\<close> and \<^verbatim>\<open>pthread_cond_signal(&ctx->infer_cond)\<close>:
  a signal wakes at most one waiter, and the count is the only trace it leaves in a
  sequential model. The 64-bit counters wrap around as \<^verbatim>\<open>uint64_t\<close> does.
\<close>

record app_ctx =
  opt_timeout_ms :: int
  opt_fps :: int
  opt_swap16 :: bool
  frame_size :: nat
  dma_copy :: "u8 list"
  slots :: "frame_slot list"
  slot_count :: int
  slots_cond_signals :: nat
  running :: bool
  captured_frames :: u64
  pushed_frames :: u64
  released_frames :: u64
  next_pts_ns :: u64
  slot_wait_timeout_count :: u64
  infer_overwrite_count :: u64
  infer_latest_raw :: "u8 list"
  infer_has_new :: bool
  infer_frame_seq :: u64
  infer_cond_signals :: nat

subsection \<open>Releasing a slot\<close>

text \<open>
  The guard of \<^verbatim>\<open>release_slot_ticket\<close>: index in range, slot in use, generation equal.
  C evaluates the conjuncts left to right and stops at the first false one, so the slot is
  read only when the index is in range.
\<close>

definition ticket_matches :: "app_ctx \<Rightarrow> slot_ticket \<Rightarrow> bool" where
  "ticket_matches ctx ticket \<longleftrightarrow>
     (if 0 \<le> idx ticket \<and> idx ticket < slot_count ctx
      then in_use (slots ctx ! nat (idx ticket)) \<and>
           generation (slots ctx ! nat (idx ticket)) = ticket_generation ticket
      else False)"

definition release_slot_ticket :: "app_ctx \<Rightarrow> slot_ticket \<Rightarrow> bool \<Rightarrow> app_ctx" where
  "release_slot_ticket ctx ticket count_release =
     (if ticket_matches ctx ticket then
        let i = nat (idx ticket);
            ctx1 = ctx\<lparr>slots := (slots ctx)[i := (slots ctx ! i)\<lparr>in_use := False\<rparr>]\<rparr>;
            ctx2 = (if count_release
                    then ctx1\<lparr>released_frames := released_frames ctx1 + 1\<rparr>
                    else ctx1)
        in ctx2\<lparr>slots_cond_signals := slots_cond_signals ctx2 + 1\<rparr>
      else ctx)"

text \<open>\<^verbatim>\<open>frame_release_notify\<close>: the renderer's callback releases with counting.\<close>

definition frame_release_notify :: "app_ctx \<Rightarrow> slot_ticket \<Rightarrow> app_ctx" where
  "frame_release_notify ctx ticket = release_slot_ticket ctx ticket True"

subsection \<open>Acquiring a slot\<close>

text \<open>
  The \<^verbatim>\<open>for (i = 0; i < ctx->slot_count; i++)\<close> scan that \<^verbatim>\<open>acquire_free_slot\<close> runs under
  the pool mutex: the first slot that is not in use is marked in use, its generation is
  incremented, and the ticket carries the new generation.
\<close>

function scan_slots :: "app_ctx \<Rightarrow> int \<Rightarrow> slot_ticket option \<times> app_ctx" where
  "scan_slots ctx i =
     (if i < slot_count ctx then
        (if \<not> in_use (slots ctx ! nat i) then
           let g = generation (slots ctx ! nat i) + 1 in
           (Some \<lparr>idx = i, ticket_generation = g\<rparr>,
            ctx\<lparr>slots := (slots ctx)[nat i := (slots ctx ! nat i)\<lparr>in_use := True, generation := g\<rparr>]\<rparr>)
         else scan_slots ctx (i + 1))
      else (None, ctx))"
  by pat_completeness auto
termination
  by (relation "measure (\<lambda>(ctx, i). nat (slot_count ctx - i))") auto

declare scan_slots.simps [simp del]

text \<open>
  One turn of the \<^verbatim>\<open>for (;;)\<close> loop that finds no free slot reads the clock and, before the
  deadline, parks in \<^verbatim>\<open>g_cond_wait_until\<close>, where the mutex is released. What the rest of the
  program does meanwhile is the environment of the call: the clock value that
  \<^verbatim>\<open>mono_us()\<close> returns in this turn, and the releases other threads perform during the wait.
\<close>

record wait_event =
  now_us :: int
  released_during_wait :: "(slot_ticket \<times> bool) list"

definition apply_releases :: "(slot_ticket \<times> bool) list \<Rightarrow> app_ctx \<Rightarrow> app_ctx" where
  "apply_releases rs ctx = foldl (\<lambda>c (t, b). release_slot_ticket c t b) ctx rs"

text \<open>
  The wake-up time handed to \<^verbatim>\<open>g_cond_wait_until\<close>: 20 ms after the clock reading, or the
  deadline if that is earlier. The loop does not look at it again; when the wait really
  ends is for the environment to say (\<open>waits_honoured\<close> below is the case where no wait ends
  early).
\<close>

definition wake_us :: "int \<Rightarrow> int \<Rightarrow> int" where
  "wake_us now deadline_us = (if now + 20000 > deadline_us then deadline_us else now + 20000)"

text \<open>
  The loop of \<^verbatim>\<open>acquire_free_slot\<close>. The result is the return value, the ticket, the context
  and the last clock value the call has read. The list of wait events is the environment's
  trace; when the loop needs an event and the trace has none, the model has no answer
  (\<open>None\<close>). The increment of \<^verbatim>\<open>slot_wait_timeout_count\<close> is on the failure path only.
\<close>

fun acquire_loop ::
  "int \<Rightarrow> int \<Rightarrow> wait_event list \<Rightarrow> app_ctx \<Rightarrow> (int \<times> slot_ticket \<times> app_ctx \<times> int) option" where
  "acquire_loop deadline_us seen [] ctx =
     (case scan_slots ctx 0 of
        (Some t, ctx') \<Rightarrow> Some (0, t, ctx', seen)
      | (None, ctx') \<Rightarrow> None)"
| "acquire_loop deadline_us seen (e # es) ctx =
     (case scan_slots ctx 0 of
        (Some t, ctx') \<Rightarrow> Some (0, t, ctx', seen)
      | (None, ctx') \<Rightarrow>
          (let now = now_us e in
           if now \<ge> deadline_us then
             Some (-1, \<lparr>idx = -1, ticket_generation = 0\<rparr>,
                   ctx'\<lparr>slot_wait_timeout_count := slot_wait_timeout_count ctx' + 1\<rparr>, now)
           else acquire_loop deadline_us now es (apply_releases (released_during_wait e) ctx')))"

definition acquire_free_slot ::
  "int \<Rightarrow> wait_event list \<Rightarrow> app_ctx \<Rightarrow> (int \<times> slot_ticket \<times> app_ctx \<times> int) option" where
  "acquire_free_slot start_us evs ctx =
     acquire_loop (start_us + opt_timeout_ms ctx * 1000) start_us evs ctx"

text \<open>
  A trace of waits in which no wait ends early: the first clock reading is not before the
  bound \<open>lb\<close>, and each later reading is not before the wake-up time computed from the
  reading before it. This is \<^verbatim>\<open>g_cond_wait_until\<close> with no signal and no spurious wake-up.
\<close>

fun waits_honoured :: "int \<Rightarrow> int \<Rightarrow> wait_event list \<Rightarrow> bool" where
  "waits_honoured lb deadline_us [] = True"
| "waits_honoured lb deadline_us (e # es) =
     (lb \<le> now_us e \<and> waits_honoured (wake_us (now_us e) deadline_us) deadline_us es)"

subsection \<open>Start-up and the pool as a transition system\<close>

text \<open>
  \<^verbatim>\<open>main\<close> clears the context with \<^verbatim>\<open>memset\<close>, sets \<^verbatim>\<open>running\<close>, and \<^verbatim>\<open>init_copy_slots\<close>
  allocates \<^verbatim>\<open>copy_buffers\<close> slots with \<^verbatim>\<open>calloc\<close>: every slot starts free with generation 0,
  and \<^verbatim>\<open>slot_count\<close> is the number of slots. The contents of the freshly allocated frame
  buffers are indeterminate in C; zero bytes stand for them here.
\<close>

definition init_copy_slots :: "nat \<Rightarrow> nat \<Rightarrow> frame_slot list" where
  "init_copy_slots copy_buffers fsize =
     replicate copy_buffers \<lparr>data = replicate fsize 0, in_use = False, generation = 0\<rparr>"

definition initial_ctx :: "int \<Rightarrow> int \<Rightarrow> bool \<Rightarrow> nat \<Rightarrow> nat \<Rightarrow> app_ctx" where
  "initial_ctx timeout_ms fps swap16 copy_buffers fsize =
     \<lparr>opt_timeout_ms = timeout_ms, opt_fps = fps, opt_swap16 = swap16,
      frame_size = fsize, dma_copy = replicate fsize 0,
      slots = init_copy_slots copy_buffers fsize, slot_count = int copy_buffers,
      slots_cond_signals = 0, running = True,
      captured_frames = 0, pushed_frames = 0, released_frames = 0, next_pts_ns = 0,
      slot_wait_timeout_count = 0, infer_overwrite_count = 0,
      infer_latest_raw = replicate fsize 0, infer_has_new = False, infer_frame_seq = 0,
      infer_cond_signals = 0\<rparr>"

text \<open>What \<^verbatim>\<open>init_copy_slots\<close> establishes and no later code changes.\<close>

definition pool_wf :: "app_ctx \<Rightarrow> bool" where
  "pool_wf ctx \<longleftrightarrow> slot_count ctx = int (length (slots ctx))"

text \<open>
  Every access to the slot table happens with \<^verbatim>\<open>slots_lock\<close> held, so an interleaving of
  acquire and release calls from any threads is a sequence of three kinds of atomic steps:
  one locked scan of an acquire call, the timeout exit of an acquire call, and one release
  call. The second component of the state lists the tickets that are valid: a ticket enters
  when a scan hands it out and leaves when a release with that ticket passes the guard.
\<close>

datatype pool_event = EvScan | EvTimeout | EvRelease slot_ticket bool

fun pool_step :: "app_ctx \<times> slot_ticket list \<Rightarrow> pool_event \<Rightarrow> app_ctx \<times> slot_ticket list" where
  "pool_step (ctx, valid) EvScan =
     (case scan_slots ctx 0 of
        (Some t, ctx') \<Rightarrow> (ctx', t # valid)
      | (None, ctx') \<Rightarrow> (ctx', valid))"
| "pool_step (ctx, valid) EvTimeout =
     (ctx\<lparr>slot_wait_timeout_count := slot_wait_timeout_count ctx + 1\<rparr>, valid)"
| "pool_step (ctx, valid) (EvRelease t b) =
     (release_slot_ticket ctx t b, if ticket_matches ctx t then remove1 t valid else valid)"

definition pool_run :: "pool_event list \<Rightarrow> app_ctx \<times> slot_ticket list \<Rightarrow> app_ctx \<times> slot_ticket list" where
  "pool_run evs st = foldl pool_step st evs"

text \<open>
  The ticket that names the current hand-out of slot \<open>i\<close>, and the invariant of the
  transition system: the valid tickets are exactly the tickets of the slots in use, each
  once.
\<close>

definition slot_ticket_of :: "app_ctx \<Rightarrow> nat \<Rightarrow> slot_ticket" where
  "slot_ticket_of ctx i = \<lparr>idx = int i, ticket_generation = generation (slots ctx ! i)\<rparr>"

definition pool_inv :: "app_ctx \<times> slot_ticket list \<Rightarrow> bool" where
  "pool_inv st \<longleftrightarrow>
     pool_wf (fst st) \<and> distinct (snd st) \<and>
     set (snd st) =
       slot_ticket_of (fst st) ` {i. i < length (slots (fst st)) \<and> in_use (slots (fst st) ! i)}"

subsection \<open>The inference mailbox\<close>

text \<open>\<^verbatim>\<open>memcpy(dst, src, n)\<close> on byte lists: the first \<open>n\<close> bytes of \<open>dst\<close> are replaced.\<close>

definition memcpy :: "u8 list \<Rightarrow> u8 list \<Rightarrow> nat \<Rightarrow> u8 list" where
  "memcpy dst src n = take n src @ drop n dst"

text \<open>
  \<^verbatim>\<open>push_latest_to_infer\<close>: under \<^verbatim>\<open>infer_lock\<close> the producer counts an overwrite when the
  flag is still set, copies the frame over the single mailbox buffer, bumps the sequence
  number, sets the flag and signals the worker. The function has no loop and no wait.
\<close>

definition push_latest_to_infer :: "app_ctx \<Rightarrow> u8 list \<Rightarrow> app_ctx" where
  "push_latest_to_infer ctx raw =
     (let ctx1 = (if infer_has_new ctx
                  then ctx\<lparr>infer_overwrite_count := infer_overwrite_count ctx + 1\<rparr>
                  else ctx);
          ctx2 = ctx1\<lparr>infer_latest_raw := memcpy (infer_latest_raw ctx1) raw (frame_size ctx1)\<rparr>;
          ctx3 = ctx2\<lparr>infer_frame_seq := infer_frame_seq ctx2 + 1\<rparr>;
          ctx4 = ctx3\<lparr>infer_has_new := True\<rparr>
      in ctx4\<lparr>infer_cond_signals := infer_cond_signals ctx4 + 1\<rparr>)"

text \<open>
  The locked section at the head of \<^verbatim>\<open>infer_thread_main\<close>'s loop. With the flag clear the
  worker stays parked on \<^verbatim>\<open>infer_cond\<close>; with \<^verbatim>\<open>running\<close> clear it leaves; otherwise it
  copies the frame and the sequence number out and clears the flag.
\<close>

datatype infer_step = WorkerExits | WorkerParked | WorkerTook "u8 list" u64

definition infer_take :: "app_ctx \<Rightarrow> infer_step \<times> app_ctx" where
  "infer_take ctx =
     (if \<not> running ctx then (WorkerExits, ctx)
      else if \<not> infer_has_new ctx then (WorkerParked, ctx)
      else (WorkerTook (take (frame_size ctx) (infer_latest_raw ctx)) (infer_frame_seq ctx),
            ctx\<lparr>infer_has_new := False\<rparr>))"

subsection \<open>Handing a frame to the display path\<close>

text \<open>
  The buffer object that \<^verbatim>\<open>gst_buffer_new_wrapped_full\<close> returns: the wrapped slot memory,
  the cookie given to \<^verbatim>\<open>frame_release_notify\<close>, and the time stamps set afterwards.
\<close>

record gst_buffer =
  buf_data :: "u8 list"
  buf_cookie :: slot_ticket
  buf_pts :: u64
  buf_duration :: u64

text \<open>
  What the allocator and GStreamer answer inside \<^verbatim>\<open>build_frame_buffer\<close>: \<^verbatim>\<open>g_new0\<close> gives no
  cookie, \<^verbatim>\<open>gst_buffer_new_wrapped_full\<close> gives no buffer, or the buffer is built.
\<close>

datatype build_outcome = CookieAllocFails | WrapFails | WrapSucceeds

text \<open>
  \<^verbatim>\<open>GST_SECOND / ctx->opt.fps\<close> is a division of positive integers (\<^verbatim>\<open>parse_options\<close> rejects
  \<^verbatim>\<open>fps <= 0\<close>), where C's truncation and \<open>div\<close> agree.
\<close>

definition build_frame_buffer ::
  "build_outcome \<Rightarrow> app_ctx \<Rightarrow> slot_ticket \<Rightarrow> gst_buffer option \<times> app_ctx" where
  "build_frame_buffer outcome ctx ticket =
     (case outcome of
        CookieAllocFails \<Rightarrow> (None, ctx)
      | WrapFails \<Rightarrow> (None, release_slot_ticket ctx ticket False)
      | WrapSucceeds \<Rightarrow>
          (let d = (word_of_int (1000000000 div opt_fps ctx) :: u64)
           in (Some \<lparr>buf_data = take (frame_size ctx) (data (slots ctx ! nat (idx ticket))),
                     buf_cookie = ticket,
                     buf_pts = next_pts_ns ctx,
                     buf_duration = d\<rparr>,
               ctx\<lparr>next_pts_ns := next_pts_ns ctx + d\<rparr>)))"

subsection \<open>The capture loop of \<^verbatim>\<open>main\<close>\<close>

text \<open>\<^verbatim>\<open>copy_frame_to_slot565\<close>: a plain copy, or a copy with the bytes of each pair swapped.\<close>

function swap16_loop :: "nat \<Rightarrow> nat \<Rightarrow> u8 list \<Rightarrow> u8 list \<Rightarrow> u8 list" where
  "swap16_loop n i dst src =
     (if i + 1 < n
      then swap16_loop n (i + 2) (dst[i := src ! (i + 1), i + 1 := src ! i]) src
      else dst)"
  by pat_completeness auto
termination
  by (relation "measure (\<lambda>(n, i, dst, src). n - i)") auto

declare swap16_loop.simps [simp del]

definition copy_frame_to_slot565 :: "app_ctx \<Rightarrow> u8 list \<Rightarrow> u8 list \<Rightarrow> u8 list" where
  "copy_frame_to_slot565 ctx dst src =
     (if \<not> opt_swap16 ctx then memcpy dst src (frame_size ctx)
      else swap16_loop (frame_size ctx) 0 dst src)"

text \<open>
  What the world outside the loop answers in one turn: the signal flag, the bus, the frame
  that the driver's ioctl copies into \<^verbatim>\<open>dma_copy\<close> (or its failure), the clock and the wait
  events of the acquire, the overlay drawn from the latest results, and the answers of the
  buffer construction and of \<^verbatim>\<open>gst_app_src_push_buffer\<close>.
\<close>

record iter_env =
  g_stop :: bool
  bus_ok :: bool
  dma_frame :: "u8 list option"
  acquire_start_us :: int
  acquire_waits :: "wait_event list"
  overlay :: "u8 list \<Rightarrow> u8 list"
  build_answer :: build_outcome
  push_ok :: bool

datatype loop_ctl = Continue | Break

text \<open>
  \<^verbatim>\<open>gst_app_src_push_buffer\<close> takes ownership of the buffer it is given. A buffer it accepts
  lives on in the pipeline, and its destroy-notify runs later, from the renderer's side (in
  this model: as a release during some later wait). A buffer it refuses (any return other
  than \<^verbatim>\<open>GST_FLOW_OK\<close>) it drops before it returns; the buffer has no other owner, so the drop
  runs the destroy-notify that \<^verbatim>\<open>gst_buffer_new_wrapped_full\<close> was given, which is
  \<^verbatim>\<open>frame_release_notify\<close> with the buffer's cookie. The first argument is the environment's
  answer: whether the flow is OK.
\<close>

definition gst_app_src_push_buffer :: "bool \<Rightarrow> app_ctx \<Rightarrow> gst_buffer \<Rightarrow> bool \<times> app_ctx" where
  "gst_app_src_push_buffer flow_ok ctx buf =
     (if flow_ok then (True, ctx) else (False, frame_release_notify ctx (buf_cookie buf)))"

text \<open>
  Lines 1257 to 1265 of \<^verbatim>\<open>main\<close>: build the buffer, push it, and on a refused push call
  \<^verbatim>\<open>release_slot_ticket\<close> with \<^verbatim>\<open>count_release\<close> false and leave the loop.
\<close>

definition display_dispatch ::
  "build_outcome \<Rightarrow> bool \<Rightarrow> app_ctx \<Rightarrow> slot_ticket \<Rightarrow> loop_ctl \<times> app_ctx" where
  "display_dispatch outcome flow_ok ctx ticket =
     (case build_frame_buffer outcome ctx ticket of
        (None, ctx1) \<Rightarrow> (Break, ctx1)
      | (Some buf, ctx1) \<Rightarrow>
          (case gst_app_src_push_buffer flow_ok ctx1 buf of
             (False, ctx2) \<Rightarrow> (Break, release_slot_ticket ctx2 ticket False)
           | (True, ctx2) \<Rightarrow> (Continue, ctx2\<lparr>pushed_frames := pushed_frames ctx2 + 1\<rparr>)))"

text \<open>
  The context in which \<^verbatim>\<open>main\<close> makes its own release call at line 1262: the buffer has been
  built and the push has refused it.
\<close>

definition refused_push_state :: "app_ctx \<Rightarrow> slot_ticket \<Rightarrow> app_ctx" where
  "refused_push_state ctx ticket =
     (case build_frame_buffer WrapSucceeds ctx ticket of
        (None, ctx1) \<Rightarrow> ctx1
      | (Some buf, ctx1) \<Rightarrow> snd (gst_app_src_push_buffer False ctx1 buf))"

text \<open>
  One turn of \<^verbatim>\<open>while (ctx.running)\<close>. \<open>None\<close> only when the acquire runs out of wait
  events. \<^verbatim>\<open>print_stats\<close> and the pacing sleep change no field kept here.
\<close>

definition capture_iteration :: "iter_env \<Rightarrow> app_ctx \<Rightarrow> (loop_ctl \<times> app_ctx) option" where
  "capture_iteration env ctx0 =
     (let ctx1 = (if g_stop env then ctx0\<lparr>running := False\<rparr> else ctx0) in
      if \<not> running ctx1 then Some (Break, ctx1)
      else if \<not> bus_ok env then Some (Break, ctx1\<lparr>running := False\<rparr>)
      else
        (case dma_frame env of
           None \<Rightarrow> Some (Break, ctx1)
         | Some frame \<Rightarrow>
             (let ctx2 = ctx1\<lparr>dma_copy := frame\<rparr>;
                  ctx3 = ctx2\<lparr>captured_frames := captured_frames ctx2 + 1\<rparr>;
                  ctx4 = push_latest_to_infer ctx3 (dma_copy ctx3)
              in case acquire_free_slot (acquire_start_us env) (acquire_waits env) ctx4 of
                   None \<Rightarrow> None
                 | Some (ret, ticket, ctx5, seen) \<Rightarrow>
                     (if ret < 0 then Some (Break, ctx5)
                      else
                        (let i = nat (idx ticket);
                             slot = slots ctx5 ! i;
                             filled = overlay env (copy_frame_to_slot565 ctx5 (data slot) (dma_copy ctx5));
                             ctx6 = ctx5\<lparr>slots := (slots ctx5)[i := slot\<lparr>data := filled\<rparr>]\<rparr>
                         in Some (display_dispatch (build_answer env) (push_ok env) ctx6 ticket))))))"

fun capture_loop :: "iter_env list \<Rightarrow> app_ctx \<Rightarrow> app_ctx option" where
  "capture_loop [] ctx = (if running ctx then None else Some ctx)"
| "capture_loop (env # envs) ctx =
     (if \<not> running ctx then Some ctx
      else (case capture_iteration env ctx of
              None \<Rightarrow> None
            | Some (Break, ctx') \<Rightarrow> Some ctx'
            | Some (Continue, ctx') \<Rightarrow> capture_loop envs ctx'))"

section \<open>The DMA driver (\<^verbatim>\<open>fpga_dma_perform_transfer\<close>)\<close>

text \<open>
  The driver runs on a 64-bit ARM core: \<^verbatim>\<open>size_t\<close>, \<^verbatim>\<open>dma_addr_t\<close> and \<^verbatim>\<open>unsigned long\<close> are
  64-bit words, \<^verbatim>\<open>u32\<close> is a 32-bit word, and memory is little-endian.
\<close>

subsection \<open>Constants of \<^verbatim>\<open>pcie_fpga_dma.h\<close>\<close>

definition BAR1_DMA_CMD_REG :: u32 where "BAR1_DMA_CMD_REG = 0x100"
definition BAR1_DMA_L_ADDR :: u32 where "BAR1_DMA_L_ADDR = 0x110"
definition BAR1_DMA_H_ADDR :: u32 where "BAR1_DMA_H_ADDR = 0x120"

definition DMA_CMD_LEN_MASK :: u32 where "DMA_CMD_LEN_MASK = 0x3FF"
definition DMA_CMD_64BIT_ADDR :: u32 where "DMA_CMD_64BIT_ADDR = push_bit 16 1"
definition DMA_CMD_WRITE :: u32 where "DMA_CMD_WRITE = push_bit 24 1"

definition DMA_MAX_LEN_DWORDS :: u64 where "DMA_MAX_LEN_DWORDS = 1024"
definition DMA_MAX_LEN_BYTES :: u64 where "DMA_MAX_LEN_BYTES = DMA_MAX_LEN_DWORDS * 4"

subsection \<open>Chunk size\<close>

text \<open>The kernel's \<^verbatim>\<open>ALIGN(x, a)\<close> for a power of two \<open>a\<close>.\<close>

definition ALIGN :: "u64 \<Rightarrow> u64 \<Rightarrow> u64" where
  "ALIGN x a = (x + a - 1) AND NOT (a - 1)"

text \<open>
  Lines 226 to 238 of the loop body: either the chunk size is committed, or the
  \<^verbatim>\<open>chunk_size == 0\<close> branch moves the address to the next page and restarts the loop.
\<close>

datatype chunk_step = Realign u64 | Emit u64

definition chunk_size_for :: "u64 \<Rightarrow> u64 \<Rightarrow> chunk_step" where
  "chunk_size_for current_addr remaining =
     (let chunk_size = min remaining DMA_MAX_LEN_BYTES in
      if (current_addr AND 0xFFF) + chunk_size > 0x1000 then
        (let chunk_size' = 0x1000 - (current_addr AND 0xFFF) in
         if chunk_size' = 0 then Realign (ALIGN current_addr 0x1000) else Emit chunk_size')
      else Emit chunk_size)"

subsection \<open>Command word\<close>

text \<open>
  \<^verbatim>\<open>u32 length_in_dwords = (chunk_size + 3) / 4\<close> truncates the 64-bit quotient to 32 bits;
  \<^verbatim>\<open>cmd_length = length_in_dwords - 1\<close>; the command word is
  \<^verbatim>\<open>(cmd_length & DMA_CMD_LEN_MASK) | DMA_CMD_64BIT_ADDR | DMA_CMD_WRITE\<close>.
\<close>

definition length_in_dwords :: "u64 \<Rightarrow> u32" where
  "length_in_dwords chunk_size = ucast ((chunk_size + 3) div 4)"

definition cmd_length :: "u64 \<Rightarrow> u32" where
  "cmd_length chunk_size = length_in_dwords chunk_size - 1"

definition cmd_reg :: "u64 \<Rightarrow> u32" where
  "cmd_reg chunk_size =
     (cmd_length chunk_size AND DMA_CMD_LEN_MASK) OR DMA_CMD_64BIT_ADDR OR DMA_CMD_WRITE"

definition lower_32_bits :: "u64 \<Rightarrow> u32" where
  "lower_32_bits a = ucast a"

definition upper_32_bits :: "u64 \<Rightarrow> u32" where
  "upper_32_bits a = ucast (drop_bit 32 a)"

subsection \<open>Host memory, registers and the device\<close>

text \<open>
  The state the transfer works on. \<open>mem\<close> is the coherent DMA buffer, one byte per
  offset from \<^verbatim>\<open>dev->dma_buf\<close> (offsets wrap as pointer arithmetic on a 64-bit machine does).
  \<open>jiffies\<close> is the kernel tick counter. \<open>bar1_writes\<close> is the sequence of
  \<^verbatim>\<open>iowrite32\<close> calls on BAR1 as (register offset, value), oldest first. \<open>emitted\<close> records
  (\<^verbatim>\<open>current_addr\<close>, \<^verbatim>\<open>chunk_size\<close>) of every chunk whose command has been issued; the driver
  does not keep it, it is there to state properties of the chunk sequence.
\<close>

record xfer_state =
  mem :: "u64 \<Rightarrow> u8"
  jiffies :: u64
  bar1_writes :: "(u32 \<times> u32) list"
  emitted :: "(u64 \<times> u64) list"

text \<open>
  The FPGA and the timer are the environment: given the register writes so far and a delay
  in microseconds (0 for a register read or \<^verbatim>\<open>cpu_relax\<close>), the device says what memory and
  the tick counter look like afterwards.
\<close>

type_synonym device = "(u32 \<times> u32) list \<Rightarrow> int \<Rightarrow> (u64 \<Rightarrow> u8) \<times> u64 \<Rightarrow> (u64 \<Rightarrow> u8) \<times> u64"

definition env_step :: "device \<Rightarrow> int \<Rightarrow> xfer_state \<Rightarrow> xfer_state" where
  "env_step dev us s =
     (let r = dev (bar1_writes s) us (mem s, jiffies s)
      in s\<lparr>mem := fst r, jiffies := snd r\<rparr>)"

definition store32 :: "(u64 \<Rightarrow> u8) \<Rightarrow> u64 \<Rightarrow> u32 \<Rightarrow> (u64 \<Rightarrow> u8)" where
  "store32 m a v =
     m(a := ucast v,
       a + 1 := ucast (drop_bit 8 v),
       a + 2 := ucast (drop_bit 16 v),
       a + 3 := ucast (drop_bit 24 v))"

definition load32 :: "(u64 \<Rightarrow> u8) \<Rightarrow> u64 \<Rightarrow> u32" where
  "load32 m a =
     ucast (m a) OR push_bit 8 (ucast (m (a + 1))) OR
     push_bit 16 (ucast (m (a + 2))) OR push_bit 24 (ucast (m (a + 3)))"

definition fpga_dma_write_reg :: "u32 \<Rightarrow> u32 \<Rightarrow> xfer_state \<Rightarrow> xfer_state" where
  "fpga_dma_write_reg off v s = s\<lparr>bar1_writes := bar1_writes s @ [(off, v)]\<rparr>"

text \<open>
  The module parameters; \<open>dma_timeout_jiffies\<close> is \<^verbatim>\<open>msecs_to_jiffies(dma_timeout_ms)\<close>. The
  others are C \<^verbatim>\<open>int\<close>s, compared as signed 32-bit values.
\<close>

record dma_params =
  dma_timeout_jiffies :: u64
  dma_chunk_delay_us :: s32
  dma_poll_sleep_us :: s32
  dma_poll_sleep_max_us :: s32
  dma_poll_backoff_polls :: s32
  dma_verbose :: bool

subsection \<open>One chunk: sentinels, registers, polling\<close>

definition tail_sentinel0 :: u32 where "tail_sentinel0 = 0xDEADBEEF"
definition tail_sentinel1 :: u32 where "tail_sentinel1 = 0xA5A55A5A"

text \<open>
  \<^verbatim>\<open>verbose_chunk\<close>. \<^verbatim>\<open>chunk_num\<close> counts the chunks of one call from 0; the ioctl passes a
  32-bit size, which gives fewer than \<open>2^21\<close> chunks, so the counter stays far from the range
  of \<^verbatim>\<open>int\<close> and is kept as an integer.
\<close>

definition verbose_chunk :: "dma_params \<Rightarrow> int \<Rightarrow> bool" where
  "verbose_chunk p chunk_num \<longleftrightarrow> dma_verbose p \<and> (chunk_num < 3 \<or> chunk_num mod 100 = 0)"

text \<open>Offset of \<^verbatim>\<open>chunk_tail0\<close>, and of \<^verbatim>\<open>chunk_tail1\<close> when the chunk has at least 8 bytes.\<close>

definition chunk_tail0 :: "u64 \<Rightarrow> u64 \<Rightarrow> u64" where
  "chunk_tail0 buf_offset chunk_size = buf_offset + chunk_size - 4"

definition chunk_tail1 :: "u64 \<Rightarrow> u64 \<Rightarrow> u64 option" where
  "chunk_tail1 buf_offset chunk_size =
     (if chunk_size \<ge> 8 then Some (chunk_tail0 buf_offset chunk_size - 4) else None)"

text \<open>
  Lines 254 to 296: the verbose pre-fill, the sentinel stores, the two address registers,
  the command register, and the read of BAR0 that flushes the posted writes.
\<close>

definition prefill :: "u64 \<Rightarrow> (u64 \<Rightarrow> u8) \<Rightarrow> (u64 \<Rightarrow> u8)" where
  "prefill buf_offset m =
     store32 (store32 (store32 (store32 m buf_offset 0xAAAAAAAA)
       (buf_offset + 4) 0xBBBBBBBB) (buf_offset + 8) 0xCCCCCCCC) (buf_offset + 12) 0xDDDDDDDD"

definition write_sentinels :: "u64 \<Rightarrow> u64 \<Rightarrow> (u64 \<Rightarrow> u8) \<Rightarrow> (u64 \<Rightarrow> u8)" where
  "write_sentinels buf_offset chunk_size m =
     (let m1 = store32 m (chunk_tail0 buf_offset chunk_size) tail_sentinel0
      in case chunk_tail1 buf_offset chunk_size of
           None \<Rightarrow> m1
         | Some t1 \<Rightarrow> store32 m1 t1 tail_sentinel1)"

definition issue_chunk ::
  "device \<Rightarrow> dma_params \<Rightarrow> u64 \<Rightarrow> u64 \<Rightarrow> u64 \<Rightarrow> int \<Rightarrow> xfer_state \<Rightarrow> xfer_state" where
  "issue_chunk dev p dma_handle current_addr chunk_size chunk_num s =
     (let buf_offset = current_addr - dma_handle;
          s1 = (if verbose_chunk p chunk_num then s\<lparr>mem := prefill buf_offset (mem s)\<rparr> else s);
          s2 = s1\<lparr>mem := write_sentinels buf_offset chunk_size (mem s1)\<rparr>;
          s3 = fpga_dma_write_reg BAR1_DMA_L_ADDR (lower_32_bits current_addr) s2;
          s4 = fpga_dma_write_reg BAR1_DMA_H_ADDR (upper_32_bits current_addr) s3;
          s5 = fpga_dma_write_reg BAR1_DMA_CMD_REG (cmd_reg chunk_size) s4;
          s6 = s5\<lparr>emitted := emitted s5 @ [(current_addr, chunk_size)]\<rparr>
      in env_step dev 0 s6)"

text \<open>The loop condition of the completion poll: a sentinel is still in place.\<close>

definition sentinel_pending :: "u64 \<Rightarrow> u64 option \<Rightarrow> (u64 \<Rightarrow> u8) \<Rightarrow> bool" where
  "sentinel_pending t0 t1 m \<longleftrightarrow>
     load32 m t0 = tail_sentinel0 \<or>
     (case t1 of None \<Rightarrow> False | Some a \<Rightarrow> load32 m a = tail_sentinel1)"

text \<open>The kernel's \<^verbatim>\<open>time_after(a, b)\<close>: \<^verbatim>\<open>(long)(b - a) < 0\<close>.\<close>

definition time_after :: "u64 \<Rightarrow> u64 \<Rightarrow> bool" where
  "time_after a b \<longleftrightarrow> sint (b - a) < 0"

text \<open>
  The adaptive backoff after one sleep (lines 317 to 326): new sleep time and poll count.
  \<^verbatim>\<open>poll_sleep_cur_us <<= 1\<close> is a shift of a 32-bit \<^verbatim>\<open>int\<close>: from \<open>2^30\<close> on the result has the
  sign bit set, is not greater than the maximum, and stays as it is, so that the next turn
  of the poll takes the \<^verbatim>\<open>poll_sleep_cur_us <= 0\<close> branch.
\<close>

definition backoff :: "dma_params \<Rightarrow> s32 \<Rightarrow> s32 \<Rightarrow> s32 \<times> s32" where
  "backoff p cur cnt =
     (if sint (dma_poll_backoff_polls p) > 0 \<and> sint (dma_poll_sleep_max_us p) > 0 \<and>
         sint cur < sint (dma_poll_sleep_max_us p)
      then (if sint (cnt + 1) \<ge> sint (dma_poll_backoff_polls p)
            then ((if sint (push_bit 1 cur) > sint (dma_poll_sleep_max_us p)
                   then dma_poll_sleep_max_us p else push_bit 1 cur), 0)
            else (cur, cnt + 1))
      else (cur, cnt))"

datatype poll_result = Completed | TimedOut

text \<open>
  The completion poll (lines 299 to 327). The first argument bounds the number of turns:
  the loop itself ends only when the device overwrites the sentinels or the tick counter
  passes the deadline, and neither is in the driver's hands.
\<close>

fun poll_loop ::
  "nat \<Rightarrow> device \<Rightarrow> dma_params \<Rightarrow> u64 \<Rightarrow> u64 option \<Rightarrow> u64 \<Rightarrow> s32 \<Rightarrow> s32 \<Rightarrow> xfer_state
     \<Rightarrow> (poll_result \<times> xfer_state) option" where
  "poll_loop 0 dev p t0 t1 deadline cur cnt s = None"
| "poll_loop (Suc fuel) dev p t0 t1 deadline cur cnt s =
     (if sentinel_pending t0 t1 (mem s) then
        (if time_after (jiffies s) deadline then Some (TimedOut, s)
         else if sint cur \<le> 0 then poll_loop fuel dev p t0 t1 deadline cur cnt (env_step dev 0 s)
         else
           (let cur1 = (if sint (dma_poll_sleep_max_us p) > 0 \<and>
                           sint cur > sint (dma_poll_sleep_max_us p)
                        then dma_poll_sleep_max_us p else cur);
                s1 = env_step dev (sint cur1) s;
                b = backoff p cur1 cnt
            in poll_loop fuel dev p t0 t1 deadline (fst b) (snd b) s1))
      else Some (Completed, s))"

text \<open>The optional pacing after a completed chunk (lines 331 to 334).\<close>

definition chunk_pacing :: "device \<Rightarrow> dma_params \<Rightarrow> xfer_state \<Rightarrow> xfer_state" where
  "chunk_pacing dev p s =
     (if sint (dma_chunk_delay_us p) > 0 then env_step dev (sint (dma_chunk_delay_us p)) s else s)"

subsection \<open>The transfer loop\<close>

datatype dma_error = ETIMEDOUT

text \<open>
  \<^verbatim>\<open>while (remaining > 0)\<close> with its three exits: the \<^verbatim>\<open>continue\<close> of the realign branch, the
  \<^verbatim>\<open>return -ETIMEDOUT\<close> inside the poll, and the update of \<^verbatim>\<open>remaining\<close>, \<^verbatim>\<open>current_addr\<close> and
  \<^verbatim>\<open>chunk_num\<close> after a completed chunk. \<open>Inr ()\<close> is the return value 0. The first argument
  bounds the turns of this loop as it bounds those of the poll. The two reads of BAR0 and
  \<^verbatim>\<open>reinit_completion\<close> before the loop, and the log lines, change nothing the loop reads.
\<close>

fun transfer_loop ::
  "nat \<Rightarrow> device \<Rightarrow> dma_params \<Rightarrow> u64 \<Rightarrow> u64 \<Rightarrow> u64 \<Rightarrow> int \<Rightarrow> xfer_state
     \<Rightarrow> ((dma_error + unit) \<times> xfer_state) option" where
  "transfer_loop 0 dev p dma_handle remaining current_addr chunk_num s = None"
| "transfer_loop (Suc fuel) dev p dma_handle remaining current_addr chunk_num s =
     (if remaining > 0 then
        (case chunk_size_for current_addr remaining of
           Realign a \<Rightarrow> transfer_loop fuel dev p dma_handle remaining a chunk_num s
         | Emit chunk_size \<Rightarrow>
             (let s1 = issue_chunk dev p dma_handle current_addr chunk_size chunk_num s;
                  buf_offset = current_addr - dma_handle
              in case poll_loop fuel dev p (chunk_tail0 buf_offset chunk_size)
                        (chunk_tail1 buf_offset chunk_size)
                        (jiffies s1 + dma_timeout_jiffies p) (dma_poll_sleep_us p) 0 s1 of
                   None \<Rightarrow> None
                 | Some (TimedOut, s2) \<Rightarrow> Some (Inl ETIMEDOUT, s2)
                 | Some (Completed, s2) \<Rightarrow>
                     transfer_loop fuel dev p dma_handle (remaining - chunk_size)
                       (current_addr + chunk_size) (chunk_num + 1) (chunk_pacing dev p s2)))
      else Some (Inr (), s))"

definition fpga_dma_perform_transfer ::
  "nat \<Rightarrow> device \<Rightarrow> dma_params \<Rightarrow> u64 \<Rightarrow> u64 \<Rightarrow> xfer_state
     \<Rightarrow> ((dma_error + unit) \<times> xfer_state) option" where
  "fpga_dma_perform_transfer fuel dev p dma_handle size_bytes s =
     transfer_loop fuel dev p dma_handle size_bytes dma_handle 0 s"

text \<open>
  The three register writes that issue one chunk, in program order, and the property of a
  chunk list that each chunk begins where the one before it ended.
\<close>

definition chunk_regs :: "u64 \<times> u64 \<Rightarrow> (u32 \<times> u32) list" where
  "chunk_regs c =
     [(BAR1_DMA_L_ADDR, lower_32_bits (fst c)), (BAR1_DMA_H_ADDR, upper_32_bits (fst c)),
      (BAR1_DMA_CMD_REG, cmd_reg (snd c))]"

fun contiguous_from :: "u64 \<Rightarrow> (u64 \<times> u64) list \<Rightarrow> bool" where
  "contiguous_from a [] = True"
| "contiguous_from a (c # cs) = (fst c = a \<and> contiguous_from (a + snd c) cs)"

text \<open>
  What the device is told. The DMA controller in the FPGA takes the writes to the three
  BAR1 registers and starts one transfer for each command: the target address is the upper
  and the lower address word put together, and the length is the value of bits 9 to 0 of
  the command word plus one, in DWORDs (the header: \<^verbatim>\<open>cmd_reg[9:0] encodes (length - 1);
  0x3FF encodes 1024 DW\<close>). \<open>commanded\<close> reads a register log three writes at a time and gives
  for each command the address and the number of bytes commanded.
\<close>

fun commanded :: "(u32 \<times> u32) list \<Rightarrow> (u64 \<times> nat) list" where
  "commanded ((r1, lo) # (r2, hi) # (r3, w) # rest) =
     (if r1 = BAR1_DMA_L_ADDR \<and> r2 = BAR1_DMA_H_ADDR \<and> r3 = BAR1_DMA_CMD_REG
      then (ucast lo OR push_bit 32 (ucast hi), 4 * (unat (w AND DMA_CMD_LEN_MASK) + 1))
             # commanded rest
      else [])"
| "commanded regs = []"

text \<open>The properties of one emitted chunk: not empty, at most the maximum, within one page.\<close>

definition chunk_ok :: "u64 \<times> u64 \<Rightarrow> bool" where
  "chunk_ok c \<longleftrightarrow> snd c \<noteq> 0 \<and> snd c \<le> DMA_MAX_LEN_BYTES \<and>
     unat (fst c) div 4096 = (unat (fst c) + unat (snd c) - 1) div 4096"

text \<open>
  Two simulated devices for concrete runs. Both advance the tick counter by one on every
  step. The first answers every step by filling the buffer with the byte \<open>b\<close>. The second
  serves only the first \<open>n\<close> chunks: while at most \<open>n\<close> chunks have been issued (three
  register writes each) it writes \<open>b\<close> to the first \<open>n\<close> pages of the buffer, and afterwards
  it leaves memory alone, as a stalled link would.
\<close>

definition filling_device :: "u8 \<Rightarrow> device" where
  "filling_device b regs us hm = (\<lambda>a. b, snd hm + 1)"

definition stalling_device :: "nat \<Rightarrow> u8 \<Rightarrow> device" where
  "stalling_device n b regs us hm =
     ((if length regs \<le> 3 * n
       then (\<lambda>a. if a < 4096 * of_nat n then b else fst hm a)
       else fst hm),
      snd hm + 1)"

text \<open>A start state and the module parameters at their defaults, with a timeout of two ticks.\<close>

definition idle_state :: xfer_state where
  "idle_state = \<lparr>mem = (\<lambda>a. 0), jiffies = 1000, bar1_writes = [], emitted = []\<rparr>"

definition test_params :: dma_params where
  "test_params = \<lparr>dma_timeout_jiffies = 2, dma_chunk_delay_us = 0, dma_poll_sleep_us = 5,
                   dma_poll_sleep_max_us = 80, dma_poll_backoff_polls = 8, dma_verbose = False\<rparr>"

text \<open>
  What a caller can see after a transfer: the return value, the chunks issued, and the
  bytes of the buffer at chosen offsets.
\<close>

definition observe ::
  "u64 list \<Rightarrow> ((dma_error + unit) \<times> xfer_state) option
     \<Rightarrow> ((dma_error + unit) \<times> (u64 \<times> u64) list \<times> u8 list) option" where
  "observe offs res =
     (case res of None \<Rightarrow> None | Some (r, s) \<Rightarrow> Some (r, emitted s, map (mem s) offs))"

section \<open>Properties of the pool\<close>

lemma release_no_match:
  "\<not> ticket_matches ctx ticket \<Longrightarrow> release_slot_ticket ctx ticket b = ctx"
  by (simp add: release_slot_ticket_def)

lemma release_match:
  assumes "ticket_matches ctx t"
  shows "release_slot_ticket ctx t b =
         ctx\<lparr>slots := (slots ctx)[nat (idx t) := (slots ctx ! nat (idx t))\<lparr>in_use := False\<rparr>],
             released_frames := released_frames ctx + (if b then 1 else 0),
             slots_cond_signals := slots_cond_signals ctx + 1\<rparr>"
  using assms by (simp add: release_slot_ticket_def Let_def)

lemma release_twice:
  assumes "pool_wf ctx"
  shows "release_slot_ticket (release_slot_ticket ctx t b) t b' = release_slot_ticket ctx t b"
proof (cases "ticket_matches ctx t")
  case False
  then show ?thesis by (simp add: release_slot_ticket_def)
next
  case True
  then have r: "0 \<le> idx t" "idx t < slot_count ctx"
    by (auto simp add: ticket_matches_def split: if_splits)
  with assms have "nat (idx t) < length (slots ctx)"
    by (simp add: pool_wf_def)
  then have "\<not> ticket_matches (release_slot_ticket ctx t b) t"
    using True by (simp add: release_slot_ticket_def ticket_matches_def Let_def)
  then show ?thesis by (rule release_no_match)
qed

subsection \<open>The scan and the invariant of the valid tickets\<close>

lemma scan_slots_None:
  "scan_slots ctx i = (None, ctx') \<Longrightarrow>
     ctx' = ctx \<and> (\<forall>j. i \<le> j \<and> j < slot_count ctx \<longrightarrow> in_use (slots ctx ! nat j))"
proof (induction ctx i rule: scan_slots.induct)
  case (1 ctx i)
  show ?case
  proof (cases "i < slot_count ctx")
    case False
    with "1.prems" show ?thesis by (auto simp add: scan_slots.simps[of ctx i])
  next
    case True
    with "1.prems" have u: "in_use (slots ctx ! nat i)"
      by (auto simp add: scan_slots.simps[of ctx i] Let_def split: if_splits)
    with True "1.prems" have "scan_slots ctx (i + 1) = (None, ctx')"
      by (simp add: scan_slots.simps[of ctx i])
    with "1.IH" True u have ih: "ctx' = ctx \<and> (\<forall>j. i + 1 \<le> j \<and> j < slot_count ctx \<longrightarrow> in_use (slots ctx ! nat j))"
      by simp
    show ?thesis
    proof (intro conjI allI impI)
      show "ctx' = ctx" using ih by simp
    next
      fix j assume j: "i \<le> j \<and> j < slot_count ctx"
      show "in_use (slots ctx ! nat j)"
      proof (cases "j = i")
        case True then show ?thesis using u by simp
      next
        case False
        with j have "i + 1 \<le> j" by simp
        with ih j show ?thesis by simp
      qed
    qed
  qed
qed

lemma scan_slots_Some:
  "scan_slots ctx i = (Some t, ctx') \<Longrightarrow>
     i \<le> idx t \<and> idx t < slot_count ctx \<and> \<not> in_use (slots ctx ! nat (idx t)) \<and>
     (\<forall>j. i \<le> j \<and> j < idx t \<longrightarrow> in_use (slots ctx ! nat j)) \<and>
     ticket_generation t = generation (slots ctx ! nat (idx t)) + 1 \<and>
     ctx' = ctx\<lparr>slots := (slots ctx)[nat (idx t) :=
              (slots ctx ! nat (idx t))\<lparr>in_use := True,
                 generation := generation (slots ctx ! nat (idx t)) + 1\<rparr>]\<rparr>"
proof (induction ctx i rule: scan_slots.induct)
  case (1 ctx i)
  show ?case
  proof (cases "i < slot_count ctx")
    case False
    with "1.prems" show ?thesis by (auto simp add: scan_slots.simps[of ctx i])
  next
    case True
    show ?thesis
    proof (cases "in_use (slots ctx ! nat i)")
      case False
      with True "1.prems" show ?thesis
        by (auto simp add: scan_slots.simps[of ctx i] Let_def)
    next
      case u: True
      with True "1.prems" have "scan_slots ctx (i + 1) = (Some t, ctx')"
        by (simp add: scan_slots.simps[of ctx i])
      with "1.IH" True u have ih:
        "i + 1 \<le> idx t \<and> idx t < slot_count ctx \<and> \<not> in_use (slots ctx ! nat (idx t)) \<and>
         (\<forall>j. i + 1 \<le> j \<and> j < idx t \<longrightarrow> in_use (slots ctx ! nat j)) \<and>
         ticket_generation t = generation (slots ctx ! nat (idx t)) + 1 \<and>
         ctx' = ctx\<lparr>slots := (slots ctx)[nat (idx t) :=
              (slots ctx ! nat (idx t))\<lparr>in_use := True,
                 generation := generation (slots ctx ! nat (idx t)) + 1\<rparr>]\<rparr>"
        by simp
      have "\<forall>j. i \<le> j \<and> j < idx t \<longrightarrow> in_use (slots ctx ! nat j)"
      proof (intro allI impI)
        fix j assume j: "i \<le> j \<and> j < idx t"
        show "in_use (slots ctx ! nat j)"
        proof (cases "j = i")
          case True then show ?thesis using u by simp
        next
          case False
          with j have "i + 1 \<le> j" by simp
          with ih j show ?thesis by simp
        qed
      qed
      with ih show ?thesis by simp
    qed
  qed
qed

lemma slot_ticket_of_inj: "slot_ticket_of c i = slot_ticket_of c' j \<Longrightarrow> i = j"
  by (simp add: slot_ticket_of_def)

lemma pool_inv_scan:
  assumes inv: "pool_inv (ctx, valid)"
  shows "pool_inv (pool_step (ctx, valid) EvScan)"
proof (cases "scan_slots ctx 0")
  case (Pair r ctx')
  show ?thesis
  proof (cases r)
    case None
    with Pair scan_slots_None[of ctx 0 ctx'] inv show ?thesis by simp
  next
    case (Some t)
    note sc = scan_slots_Some[OF Pair[unfolded Some]]
    let ?k = "nat (idx t)"
    from inv have wf: "slot_count ctx = int (length (slots ctx))" by (simp add: pool_inv_def pool_wf_def)
    from sc wf have k: "?k < length (slots ctx)" "int ?k = idx t" by auto
    from sc have free: "\<not> in_use (slots ctx ! ?k)" by simp
    from sc have ctx': "slots ctx' = (slots ctx)[?k := (slots ctx ! ?k)\<lparr>in_use := True, generation := generation (slots ctx ! ?k) + 1\<rparr>]"
      and cnt: "slot_count ctx' = slot_count ctx" by simp_all
    have t: "t = slot_ticket_of ctx' ?k"
      using sc k ctx' by (simp add: slot_ticket_of_def)
    have other: "\<And>i. i \<noteq> ?k \<Longrightarrow> slot_ticket_of ctx' i = slot_ticket_of ctx i \<and> in_use (slots ctx' ! i) = in_use (slots ctx ! i)"
      using ctx' by (simp add: slot_ticket_of_def)
    have usek: "in_use (slots ctx' ! ?k)" using ctx' k by simp
    let ?S = "{i. i < length (slots ctx) \<and> in_use (slots ctx ! i)}"
    let ?S' = "{i. i < length (slots ctx') \<and> in_use (slots ctx' ! i)}"
    have S': "?S' = insert ?k ?S"
      using usek k ctx' by (auto simp add: nth_list_update)
    have notin: "?k \<notin> ?S" using free by simp
    have img: "slot_ticket_of ctx' ` ?S = slot_ticket_of ctx ` ?S"
    proof (rule image_cong)
      show "?S = ?S" ..
    next
      fix x assume "x \<in> ?S"
      with notin have "x \<noteq> ?k" by auto
      then show "slot_ticket_of ctx' x = slot_ticket_of ctx x" using other by simp
    qed
    from inv have vs: "set valid = slot_ticket_of ctx ` ?S" and d: "distinct valid"
      by (simp_all add: pool_inv_def)
    have tnew: "t \<notin> set valid"
    proof
      assume "t \<in> set valid"
      with vs obtain i where "i \<in> ?S" "t = slot_ticket_of ctx i" by auto
      with t have "i = ?k" using slot_ticket_of_inj by metis
      with \<open>i \<in> ?S\<close> notin show False by simp
    qed
    have "pool_step (ctx, valid) EvScan = (ctx', t # valid)"
      using Pair Some by simp
    moreover have "pool_wf ctx'" using wf ctx' cnt by (simp add: pool_wf_def)
    moreover have "distinct (t # valid)" using d tnew by simp
    moreover have "set (t # valid) = slot_ticket_of ctx' ` ?S'"
      using S' img vs t by simp
    ultimately show ?thesis by (simp add: pool_inv_def)
  qed
qed

lemma pool_inv_release:
  assumes inv: "pool_inv (ctx, valid)"
  shows "pool_inv (pool_step (ctx, valid) (EvRelease t b))"
proof (cases "ticket_matches ctx t")
  case False
  with inv show ?thesis by (simp add: release_no_match)
next
  case True
  let ?k = "nat (idx t)"
  let ?ctx' = "release_slot_ticket ctx t b"
  from inv have wf: "slot_count ctx = int (length (slots ctx))" by (simp add: pool_inv_def pool_wf_def)
  from True have m: "0 \<le> idx t" "idx t < slot_count ctx" "in_use (slots ctx ! ?k)"
      "generation (slots ctx ! ?k) = ticket_generation t"
    by (auto simp add: ticket_matches_def split: if_splits)
  with wf have k: "?k < length (slots ctx)" "int ?k = idx t" by auto
  have sl: "slots ?ctx' = (slots ctx)[?k := (slots ctx ! ?k)\<lparr>in_use := False\<rparr>]"
    and cnt: "slot_count ?ctx' = slot_count ctx"
    using True by (simp_all add: release_match)
  have t: "t = slot_ticket_of ctx ?k" using m k by (simp add: slot_ticket_of_def)
  have other: "\<And>i. i \<noteq> ?k \<Longrightarrow> slot_ticket_of ?ctx' i = slot_ticket_of ctx i \<and> in_use (slots ?ctx' ! i) = in_use (slots ctx ! i)"
    using sl by (simp add: slot_ticket_of_def)
  have freek: "\<not> in_use (slots ?ctx' ! ?k)" using sl k by simp
  let ?S = "{i. i < length (slots ctx) \<and> in_use (slots ctx ! i)}"
  let ?S' = "{i. i < length (slots ?ctx') \<and> in_use (slots ?ctx' ! i)}"
  have S': "?S' = ?S - {?k}"
    using freek k sl by (auto simp add: nth_list_update)
  have img: "slot_ticket_of ?ctx' ` ?S' = slot_ticket_of ctx ` ?S'"
  proof (rule image_cong)
    show "?S' = ?S'" ..
  next
    fix x assume "x \<in> ?S'"
    with S' have "x \<noteq> ?k" by auto
    then show "slot_ticket_of ?ctx' x = slot_ticket_of ctx x" using other by simp
  qed
  from inv have vs: "set valid = slot_ticket_of ctx ` ?S" and d: "distinct valid"
    by (simp_all add: pool_inv_def)
  have "slot_ticket_of ctx ` (?S - {?k}) = slot_ticket_of ctx ` ?S - {t}"
    using t slot_ticket_of_inj by auto
  then have "set (remove1 t valid) = slot_ticket_of ?ctx' ` ?S'"
    using d vs img S' by simp
  moreover have "pool_wf ?ctx'" using wf sl cnt by (simp add: pool_wf_def)
  moreover have "distinct (remove1 t valid)" using d by simp
  ultimately show ?thesis using True by (simp add: pool_inv_def)
qed

lemma pool_inv_step: "pool_inv st \<Longrightarrow> pool_inv (pool_step st e)"
proof (cases st)
  case (Pair ctx valid)
  assume "pool_inv st"
  with Pair show ?thesis
  proof (cases e)
    case EvScan
    with Pair \<open>pool_inv st\<close> show ?thesis using pool_inv_scan by simp
  next
    case EvTimeout
    with Pair \<open>pool_inv st\<close> show ?thesis by (simp add: pool_inv_def pool_wf_def slot_ticket_of_def)
  next
    case (EvRelease t b)
    with Pair \<open>pool_inv st\<close> show ?thesis using pool_inv_release by simp
  qed
qed

lemma pool_inv_run: "pool_inv st \<Longrightarrow> pool_inv (pool_run evs st)"
  unfolding pool_run_def
  by (induction evs arbitrary: st) (simp_all add: pool_inv_step)

lemma pool_inv_initial: "pool_inv (initial_ctx tm fps sw n fs, [])"
  by (simp add: pool_inv_def pool_wf_def initial_ctx_def init_copy_slots_def)

lemma pool_inv_bound:
  assumes "pool_inv (ctx, valid)"
  shows "length valid \<le> length (slots ctx)"
proof -
  let ?S = "{i. i < length (slots ctx) \<and> in_use (slots ctx ! i)}"
  from assms have vs: "set valid = slot_ticket_of ctx ` ?S" and d: "distinct valid"
    by (simp_all add: pool_inv_def)
  have "length valid = card (set valid)" using d by (simp add: distinct_card)
  also have "\<dots> \<le> card ?S" using vs by (simp add: card_image_le)
  also have "\<dots> \<le> card {i. i < length (slots ctx)}"
    by (rule card_mono) auto
  finally show ?thesis by simp
qed


subsection \<open>Tickets of the pool\<close>

lemma map_update_same: "(map f xs)[i := f (xs ! i)] = map f xs"
  by (metis list_update_id map_update)

lemma release_generations:
  "map generation (slots (release_slot_ticket ctx t b)) = map generation (slots ctx)"
proof (cases "ticket_matches ctx t")
  case False
  then show ?thesis by (simp add: release_no_match)
next
  case True
  then show ?thesis by (simp add: release_match map_update map_update_same)
qed

lemma scan_generations:
  assumes "scan_slots ctx 0 = (Some t, ctx')"
  shows "map generation (slots ctx') =
           (map generation (slots ctx))[nat (idx t) := generation (slots ctx ! nat (idx t)) + 1]"
  using scan_slots_Some[OF assms] by (simp add: map_update)

lemma pool_step_slot_count: "slot_count (fst (pool_step st e)) = slot_count (fst st)"
proof (cases st)
  case (Pair ctx valid)
  show ?thesis
  proof (cases e)
    case EvScan
    show ?thesis
    proof (cases "scan_slots ctx 0")
      case (Pair r ctx')
      then show ?thesis using \<open>st = (ctx, valid)\<close> EvScan scan_slots_None[of ctx 0 ctx'] scan_slots_Some[of ctx 0 _ ctx']
        by (cases r) auto
    qed
  next
    case EvTimeout
    with Pair show ?thesis by simp
  next
    case (EvRelease t b)
    with Pair show ?thesis by (cases "ticket_matches ctx t") (simp_all add: release_no_match release_match)
  qed
qed

lemma pool_run_slot_count: "slot_count (fst (pool_run evs st)) = slot_count (fst st)"
  unfolding pool_run_def
  by (induction evs arbitrary: st) (simp_all add: pool_step_slot_count)

lemma pool_run_initial_bound:
  "length (snd (pool_run evs (initial_ctx tm fps sw n fs, []))) \<le> n"
proof -
  let ?st = "pool_run evs (initial_ctx tm fps sw n fs, [])"
  have inv: "pool_inv ?st" by (rule pool_inv_run[OF pool_inv_initial])
  then have "pool_inv (fst ?st, snd ?st)" by simp
  then have "length (snd ?st) \<le> length (slots (fst ?st))" by (rule pool_inv_bound)
  moreover have "int (length (slots (fst ?st))) = slot_count (fst ?st)"
    using inv by (simp add: pool_inv_def pool_wf_def)
  moreover have "slot_count (fst ?st) = int n"
    by (simp add: pool_run_slot_count initial_ctx_def)
  ultimately show ?thesis by simp
qed

lemma pool_run_initial_distinct:
  "distinct (map (\<lambda>t. (idx t, ticket_generation t)) (snd (pool_run evs (initial_ctx tm fps sw n fs, []))))"
proof -
  let ?st = "pool_run evs (initial_ctx tm fps sw n fs, [])"
  have inv: "pool_inv ?st" by (rule pool_inv_run[OF pool_inv_initial])
  then have "distinct (snd ?st)" by (simp add: pool_inv_def)
  moreover have "inj_on (\<lambda>t::slot_ticket. (idx t, ticket_generation t)) (set (snd ?st))"
    by (rule inj_onI) simp
  ultimately show ?thesis by (simp add: distinct_map)
qed

text \<open>
  Claim C2. Start from the pool that \<^verbatim>\<open>init_copy_slots\<close> builds with \<open>n\<close> slots and run any
  sequence of atomic pool steps (locked scans of acquire calls, timeout exits, release calls
  with arbitrary tickets). Then at most \<open>n\<close> tickets are valid, and no two valid tickets
  have the same (slot index, generation) pair. A release never changes a generation
  counter; a scan that hands out nothing changes nothing; a scan that hands out a ticket
  increments the generation of exactly the slot it hands out, by one, and the ticket carries
  the incremented value. By \<open>acquire_loop_as_events\<close> the effect of a whole acquire call,
  with the releases that other threads make while it waits, is that of such a sequence.
\<close>

theorem pool_valid_tickets_invariant:
  "length (snd (pool_run evs (initial_ctx tm fps sw n fs, []))) \<le> n \<and>
   distinct (map (\<lambda>t. (idx t, ticket_generation t))
                 (snd (pool_run evs (initial_ctx tm fps sw n fs, [])))) \<and>
   map generation (slots (release_slot_ticket ctx t b)) = map generation (slots ctx) \<and>
   (scan_slots ctx 0 = (None, ctx') \<longrightarrow> ctx' = ctx) \<and>
   (scan_slots ctx 0 = (Some t', ctx') \<longrightarrow>
      map generation (slots ctx') =
        (map generation (slots ctx))[nat (idx t') := generation (slots ctx ! nat (idx t')) + 1] \<and>
      ticket_generation t' = generation (slots ctx ! nat (idx t')) + 1)"
  using pool_run_initial_bound[of evs tm fps sw n fs]
        pool_run_initial_distinct[of evs tm fps sw n fs]
        release_generations[of ctx t b]
        scan_slots_None[of ctx 0 ctx'] scan_generations[of ctx t' ctx']
        scan_slots_Some[of ctx 0 t' ctx']
  by simp


text \<open>
  An instance: two slots, three scans (the third finds nothing), a release and a repeated
  release of the first ticket, and a fourth scan that hands slot 0 out again with
  generation 2.
\<close>

theorem pool_valid_tickets_invariant_witness:
  "length (snd (pool_run [EvScan, EvScan, EvScan, EvRelease \<lparr>idx = 0, ticket_generation = 1\<rparr> True,
              EvRelease \<lparr>idx = 0, ticket_generation = 1\<rparr> True, EvScan]
            (initial_ctx 5000 15 False 2 4, []))) \<le> 2 \<and>
   snd (pool_run [EvScan, EvScan, EvScan, EvRelease \<lparr>idx = 0, ticket_generation = 1\<rparr> True,
              EvRelease \<lparr>idx = 0, ticket_generation = 1\<rparr> True, EvScan]
            (initial_ctx 5000 15 False 2 4, []))
     = [\<lparr>idx = 0, ticket_generation = 2\<rparr>, \<lparr>idx = 1, ticket_generation = 1\<rparr>] \<and>
   scan_slots ((initial_ctx 5000 15 False 2 4)\<lparr>slots :=
       [\<lparr>data = [], in_use = True, generation = 1\<rparr>, \<lparr>data = [], in_use = True, generation = 1\<rparr>]\<rparr>) 0
     = (None, (initial_ctx 5000 15 False 2 4)\<lparr>slots :=
       [\<lparr>data = [], in_use = True, generation = 1\<rparr>, \<lparr>data = [], in_use = True, generation = 1\<rparr>]\<rparr>) \<and>
   scan_slots ((initial_ctx 5000 15 False 2 4)\<lparr>slots :=
       [\<lparr>data = [], in_use = True, generation = 1\<rparr>, \<lparr>data = [], in_use = False, generation = 7\<rparr>]\<rparr>) 0
     = (Some \<lparr>idx = 1, ticket_generation = 8\<rparr>, (initial_ctx 5000 15 False 2 4)\<lparr>slots :=
       [\<lparr>data = [], in_use = True, generation = 1\<rparr>, \<lparr>data = [], in_use = True, generation = 8\<rparr>]\<rparr>) \<and>
   map generation (slots ((initial_ctx 5000 15 False 2 4)\<lparr>slots :=
       [\<lparr>data = [], in_use = True, generation = 1\<rparr>, \<lparr>data = [], in_use = True, generation = 8\<rparr>]\<rparr>))
     = [1, 8]"
  using pool_valid_tickets_invariant[of "[EvScan, EvScan, EvScan, EvRelease \<lparr>idx = 0, ticket_generation = 1\<rparr> True,
              EvRelease \<lparr>idx = 0, ticket_generation = 1\<rparr> True, EvScan]" 5000 15 False 2 4
           "(initial_ctx 5000 15 False 2 4)\<lparr>slots :=
       [\<lparr>data = [], in_use = True, generation = 1\<rparr>, \<lparr>data = [], in_use = True, generation = 1\<rparr>]\<rparr>"
           "\<lparr>idx = 0, ticket_generation = 1\<rparr>" True
           "(initial_ctx 5000 15 False 2 4)\<lparr>slots :=
       [\<lparr>data = [], in_use = True, generation = 1\<rparr>, \<lparr>data = [], in_use = True, generation = 1\<rparr>]\<rparr>"
           "\<lparr>idx = 1, ticket_generation = 8\<rparr>"]
        pool_valid_tickets_invariant[of "[]" 5000 15 False 2 4
           "(initial_ctx 5000 15 False 2 4)\<lparr>slots :=
       [\<lparr>data = [], in_use = True, generation = 1\<rparr>, \<lparr>data = [], in_use = False, generation = 7\<rparr>]\<rparr>"
           "\<lparr>idx = 0, ticket_generation = 1\<rparr>" True
           "(initial_ctx 5000 15 False 2 4)\<lparr>slots :=
       [\<lparr>data = [], in_use = True, generation = 1\<rparr>, \<lparr>data = [], in_use = True, generation = 8\<rparr>]\<rparr>"
           "\<lparr>idx = 1, ticket_generation = 8\<rparr>"]
  by (simp add: pool_run_def scan_slots.simps initial_ctx_def init_copy_slots_def
        release_slot_ticket_def ticket_matches_def Let_def)

text \<open>
  Claim C10. A release with a ticket whose index is negative or at least \<^verbatim>\<open>slot_count\<close>
  leaves the whole context unchanged, whatever the ticket's generation and whatever the
  count flag; the outcome does not depend on the contents of the slot table (it is the same
  for every table \<open>xs\<close>), so no slot entry is read or written.
\<close>

theorem release_out_of_range_noop:
  "idx ticket < 0 \<or> slot_count ctx \<le> idx ticket \<Longrightarrow>
     release_slot_ticket ctx ticket b = ctx \<and>
     (\<forall>xs. release_slot_ticket (ctx\<lparr>slots := xs\<rparr>) ticket b = ctx\<lparr>slots := xs\<rparr>)"
  by (auto simp add: release_slot_ticket_def ticket_matches_def)

text \<open>Instances: index \<open>-1\<close> and index 2 on a pool of two slots, both in use.\<close>

theorem release_out_of_range_noop_witness:
  "(idx \<lparr>idx = -1, ticket_generation = 1\<rparr> < 0 \<or>
      slot_count (initial_ctx 5000 15 False 2 4) \<le> idx \<lparr>idx = -1, ticket_generation = 1\<rparr>) \<and>
   release_slot_ticket ((initial_ctx 5000 15 False 2 4)\<lparr>slots :=
       [\<lparr>data = [], in_use = True, generation = 1\<rparr>, \<lparr>data = [], in_use = True, generation = 1\<rparr>]\<rparr>)
     \<lparr>idx = -1, ticket_generation = 1\<rparr> True
   = (initial_ctx 5000 15 False 2 4)\<lparr>slots :=
       [\<lparr>data = [], in_use = True, generation = 1\<rparr>, \<lparr>data = [], in_use = True, generation = 1\<rparr>]\<rparr> \<and>
   (2 \<le> idx \<lparr>idx = 2, ticket_generation = 1\<rparr> \<and>
    release_slot_ticket ((initial_ctx 5000 15 False 2 4)\<lparr>slots :=
       [\<lparr>data = [], in_use = True, generation = 1\<rparr>, \<lparr>data = [], in_use = True, generation = 1\<rparr>]\<rparr>)
     \<lparr>idx = 2, ticket_generation = 1\<rparr> False
   = (initial_ctx 5000 15 False 2 4)\<lparr>slots :=
       [\<lparr>data = [], in_use = True, generation = 1\<rparr>, \<lparr>data = [], in_use = True, generation = 1\<rparr>]\<rparr>)"
proof -
  have h1: "idx \<lparr>idx = -1, ticket_generation = 1\<rparr> < 0 \<or>
      slot_count (initial_ctx 5000 15 False 2 4) \<le> idx \<lparr>idx = -1, ticket_generation = 1\<rparr>"
    by simp
  have h2: "idx \<lparr>idx = 2, ticket_generation = 1\<rparr> < 0 \<or>
      slot_count (initial_ctx 5000 15 False 2 4) \<le> idx \<lparr>idx = 2, ticket_generation = 1\<rparr>"
    by (simp add: initial_ctx_def)
  show ?thesis
    using h1 release_out_of_range_noop[OF h1, of True] release_out_of_range_noop[OF h2, of False] by simp
qed

text \<open>
  Claim C4. A release whose ticket carries another generation than the slot, or whose slot
  is not in use, returns the context unchanged: in-use flags, generations, the
  released-frames counter and the signal count (no waiter is woken). Releasing the same
  ticket a second time gives the state of the first release. A release that passes the
  guard clears the in-use flag of that slot, signals the condition variable once, and adds
  one to \<^verbatim>\<open>released_frames\<close> exactly when \<^verbatim>\<open>count_release\<close> is set.
\<close>

theorem release_stale_ticket_noop:
  "(generation (slots ctx ! nat (idx t)) \<noteq> ticket_generation t \<or>
      \<not> in_use (slots ctx ! nat (idx t)) \<longrightarrow> release_slot_ticket ctx t b = ctx) \<and>
   (pool_wf ctx \<longrightarrow>
      release_slot_ticket (release_slot_ticket ctx t b) t b' = release_slot_ticket ctx t b) \<and>
   (pool_wf ctx \<and> ticket_matches ctx t \<longrightarrow>
      release_slot_ticket ctx t b =
        ctx\<lparr>slots := (slots ctx)[nat (idx t) := (slots ctx ! nat (idx t))\<lparr>in_use := False\<rparr>],
            released_frames := released_frames ctx + (if b then 1 else 0),
            slots_cond_signals := slots_cond_signals ctx + 1\<rparr> \<and>
      \<not> in_use (slots (release_slot_ticket ctx t b) ! nat (idx t)))"
proof (intro conjI impI)
  assume "generation (slots ctx ! nat (idx t)) \<noteq> ticket_generation t \<or>
      \<not> in_use (slots ctx ! nat (idx t))"
  then have "\<not> ticket_matches ctx t" by (auto simp add: ticket_matches_def)
  then show "release_slot_ticket ctx t b = ctx" by (rule release_no_match)
next
  assume "pool_wf ctx"
  then show "release_slot_ticket (release_slot_ticket ctx t b) t b' = release_slot_ticket ctx t b"
    by (rule release_twice)
next
  assume a: "pool_wf ctx \<and> ticket_matches ctx t"
  then show "release_slot_ticket ctx t b =
        ctx\<lparr>slots := (slots ctx)[nat (idx t) := (slots ctx ! nat (idx t))\<lparr>in_use := False\<rparr>],
            released_frames := released_frames ctx + (if b then 1 else 0),
            slots_cond_signals := slots_cond_signals ctx + 1\<rparr>"
    by (simp add: release_match)
next
  assume a: "pool_wf ctx \<and> ticket_matches ctx t"
  then have "nat (idx t) < length (slots ctx)"
    by (auto simp add: pool_wf_def ticket_matches_def split: if_splits)
  with a show "\<not> in_use (slots (release_slot_ticket ctx t b) ! nat (idx t))"
    by (simp add: release_match)
qed

text \<open>
  Instances on a pool of two slots where slot 0 is in use with generation 3: the matching
  ticket, the same ticket twice, and a stale ticket with generation 2.
\<close>

theorem release_stale_ticket_noop_witness:
  "pool_wf ((initial_ctx 5000 15 False 2 4)\<lparr>slots :=
       [\<lparr>data = [], in_use = True, generation = 3\<rparr>, \<lparr>data = [], in_use = False, generation = 1\<rparr>]\<rparr>) \<and>
   ticket_matches ((initial_ctx 5000 15 False 2 4)\<lparr>slots :=
       [\<lparr>data = [], in_use = True, generation = 3\<rparr>, \<lparr>data = [], in_use = False, generation = 1\<rparr>]\<rparr>)
       \<lparr>idx = 0, ticket_generation = 3\<rparr> \<and>
   release_slot_ticket ((initial_ctx 5000 15 False 2 4)\<lparr>slots :=
       [\<lparr>data = [], in_use = True, generation = 3\<rparr>, \<lparr>data = [], in_use = False, generation = 1\<rparr>]\<rparr>)
       \<lparr>idx = 0, ticket_generation = 3\<rparr> True
     = (initial_ctx 5000 15 False 2 4)\<lparr>slots :=
       [\<lparr>data = [], in_use = False, generation = 3\<rparr>, \<lparr>data = [], in_use = False, generation = 1\<rparr>],
       released_frames := 1, slots_cond_signals := 1\<rparr> \<and>
   release_slot_ticket (release_slot_ticket ((initial_ctx 5000 15 False 2 4)\<lparr>slots :=
       [\<lparr>data = [], in_use = True, generation = 3\<rparr>, \<lparr>data = [], in_use = False, generation = 1\<rparr>]\<rparr>)
       \<lparr>idx = 0, ticket_generation = 3\<rparr> True) \<lparr>idx = 0, ticket_generation = 3\<rparr> True
     = (initial_ctx 5000 15 False 2 4)\<lparr>slots :=
       [\<lparr>data = [], in_use = False, generation = 3\<rparr>, \<lparr>data = [], in_use = False, generation = 1\<rparr>],
       released_frames := 1, slots_cond_signals := 1\<rparr> \<and>
   generation (slots ((initial_ctx 5000 15 False 2 4)\<lparr>slots :=
       [\<lparr>data = [], in_use = True, generation = 3\<rparr>, \<lparr>data = [], in_use = False, generation = 1\<rparr>]\<rparr>) ! nat (idx \<lparr>idx = 0, ticket_generation = 2\<rparr>))
     \<noteq> ticket_generation \<lparr>idx = 0, ticket_generation = 2\<rparr> \<and>
   release_slot_ticket ((initial_ctx 5000 15 False 2 4)\<lparr>slots :=
       [\<lparr>data = [], in_use = True, generation = 3\<rparr>, \<lparr>data = [], in_use = False, generation = 1\<rparr>]\<rparr>)
       \<lparr>idx = 0, ticket_generation = 2\<rparr> True
     = (initial_ctx 5000 15 False 2 4)\<lparr>slots :=
       [\<lparr>data = [], in_use = True, generation = 3\<rparr>, \<lparr>data = [], in_use = False, generation = 1\<rparr>]\<rparr>"
  using release_stale_ticket_noop[of "(initial_ctx 5000 15 False 2 4)\<lparr>slots :=
       [\<lparr>data = [], in_use = True, generation = 3\<rparr>, \<lparr>data = [], in_use = False, generation = 1\<rparr>]\<rparr>"
       "\<lparr>idx = 0, ticket_generation = 3\<rparr>" True True]
     release_stale_ticket_noop[of "(initial_ctx 5000 15 False 2 4)\<lparr>slots :=
       [\<lparr>data = [], in_use = True, generation = 3\<rparr>, \<lparr>data = [], in_use = False, generation = 1\<rparr>]\<rparr>"
       "\<lparr>idx = 0, ticket_generation = 2\<rparr>" True True]
  by (simp add: pool_wf_def ticket_matches_def initial_ctx_def init_copy_slots_def
        release_slot_ticket_def Let_def)


subsection \<open>Waiting for a slot\<close>

lemma release_timeout_count:
  "slot_wait_timeout_count (release_slot_ticket ctx t b) = slot_wait_timeout_count ctx"
  by (simp add: release_slot_ticket_def Let_def)

lemma apply_releases_timeout_count:
  "slot_wait_timeout_count (apply_releases rs ctx) = slot_wait_timeout_count ctx"
  unfolding apply_releases_def
  by (induction rs arbitrary: ctx) (simp_all add: release_timeout_count split: prod.splits)

lemma acquire_loop_sound:
  "acquire_loop d seen evs ctx = Some (ret, t, ctx', seen') \<Longrightarrow>
     (ret = 0 \<or> ret = -1) \<and>
     (ret = 0 \<longrightarrow> slot_wait_timeout_count ctx' = slot_wait_timeout_count ctx) \<and>
     (ret = -1 \<longrightarrow> d \<le> seen' \<and> t = \<lparr>idx = -1, ticket_generation = 0\<rparr> \<and>
        slot_wait_timeout_count ctx' = slot_wait_timeout_count ctx + 1 \<and>
        (\<forall>j. 0 \<le> j \<and> j < slot_count ctx' \<longrightarrow> in_use (slots ctx' ! nat j)))"
proof (induction evs arbitrary: seen ctx)
  case Nil
  obtain r c where sc: "scan_slots ctx 0 = (r, c)" by (cases "scan_slots ctx 0")
  show ?case
  proof (cases r)
    case None
    with sc Nil.prems show ?thesis by simp
  next
    case (Some t0)
    with sc Nil.prems scan_slots_Some[of ctx 0 t0 c] show ?thesis by auto
  qed
next
  case (Cons e es)
  obtain r c where sc: "scan_slots ctx 0 = (r, c)" by (cases "scan_slots ctx 0")
  show ?case
  proof (cases r)
    case (Some t0)
    with sc Cons.prems scan_slots_Some[of ctx 0 t0 c] show ?thesis by auto
  next
    case None
    with sc scan_slots_None[of ctx 0 c] have c: "c = ctx"
      and full: "\<forall>j. 0 \<le> j \<and> j < slot_count ctx \<longrightarrow> in_use (slots ctx ! nat j)" by auto
    show ?thesis
    proof (cases "d \<le> now_us e")
      case True
      with sc None c Cons.prems full show ?thesis by (auto simp add: Let_def)
    next
      case False
      with sc None c Cons.prems have
        "acquire_loop d (now_us e) es (apply_releases (released_during_wait e) ctx) = Some (ret, t, ctx', seen')"
        by (simp add: Let_def)
      from Cons.IH[OF this] show ?thesis by (simp add: apply_releases_timeout_count)
    qed
  qed
qed

lemma acquire_loop_quiet_timeout:
  assumes "\<forall>j. 0 \<le> j \<and> j < slot_count ctx \<longrightarrow> in_use (slots ctx ! nat j)"
    and "\<forall>e \<in> set evs. released_during_wait e = []"
    and "\<exists>e \<in> set evs. d \<le> now_us e"
  shows "\<exists>seen'. acquire_loop d seen evs ctx =
            Some (-1, \<lparr>idx = -1, ticket_generation = 0\<rparr>,
                  ctx\<lparr>slot_wait_timeout_count := slot_wait_timeout_count ctx + 1\<rparr>, seen') \<and> d \<le> seen'"
  using assms
proof (induction evs arbitrary: seen)
  case Nil
  then show ?case by simp
next
  case (Cons e es)
  have sc: "scan_slots ctx 0 = (None, ctx)"
  proof (cases "scan_slots ctx 0")
    case (Pair r c)
    show ?thesis
    proof (cases r)
      case None
      with Pair scan_slots_None[of ctx 0 c] show ?thesis by simp
    next
      case (Some t0)
      with Pair scan_slots_Some[of ctx 0 t0 c] Cons.prems(1) show ?thesis by auto
    qed
  qed
  show ?case
  proof (cases "d \<le> now_us e")
    case True
    with sc show ?thesis by (simp add: Let_def)
  next
    case False
    with Cons.prems have ex: "\<exists>e \<in> set es. d \<le> now_us e" by auto
    from Cons.prems have q: "\<forall>e \<in> set es. released_during_wait e = []"
      and r: "released_during_wait e = []" by auto
    from Cons.IH[OF Cons.prems(1) q ex, of "now_us e"] False sc r
    show ?thesis by (simp add: Let_def apply_releases_def)
  qed
qed

lemma acquire_loop_recheck:
  "scan_slots ctx 0 = (None, ctx) \<Longrightarrow> now_us e < d \<Longrightarrow>
     acquire_loop d seen (e # es) ctx =
       acquire_loop d (now_us e) es (apply_releases (released_during_wait e) ctx)"
  by (simp add: Let_def)

lemma acquire_loop_scan_first:
  "scan_slots ctx 0 = (Some t, ctx') \<Longrightarrow> acquire_loop d seen evs ctx = Some (0, t, ctx', seen)"
  by (cases evs) simp_all

lemma waits_honoured_reach_deadline:
  "waits_honoured lb d evs \<Longrightarrow> d \<le> lb + 20000 * int k \<Longrightarrow> k < length evs \<Longrightarrow>
     \<exists>e \<in> set evs. d \<le> now_us e"
proof (induction evs arbitrary: lb k)
  case Nil
  then show ?case by simp
next
  case (Cons e es)
  show ?case
  proof (cases "d \<le> now_us e")
    case True
    then show ?thesis by simp
  next
    case False
    from Cons.prems(1) have lb: "lb \<le> now_us e"
      and h: "waits_honoured (wake_us (now_us e) d) d es" by simp_all
    from False lb Cons.prems(2) obtain k' where k: "k = Suc k'"
      by (cases k) auto
    have "d \<le> wake_us (now_us e) d + 20000 * int k'"
      using Cons.prems(2) lb k by (simp add: wake_us_def)
    moreover have "k' < length es" using Cons.prems(3) k by simp
    ultimately have "\<exists>e \<in> set es. d \<le> now_us e" using Cons.IH[OF h] by blast
    then show ?thesis by auto
  qed
qed

text \<open>
  Claim C7. A call of \<^verbatim>\<open>acquire_free_slot\<close> that does not return 0 returns \<open>-1\<close>; the clock
  value it read last is then at or after the start time plus \<^verbatim>\<open>timeout_ms\<close> milliseconds, the
  scan before that reading found every slot in use, and \<^verbatim>\<open>slot_wait_timeout_count\<close> has grown
  by exactly one; a call that returns 0 leaves that counter alone. When every slot is in
  use, no release happens during the call, and the clock reaches the deadline at one of the
  wake-ups, the call does return \<open>-1\<close>, at or after the deadline, with the counter
  incremented and nothing else changed; and the clock does reach the deadline within
  \<open>k + 1\<close> wake-ups when no wait ends before its wake-up time and \<open>k\<close> waits of 20 ms cover
  the timeout (three for 50 ms). After every wake-up before the deadline the loop
  goes round again, and every turn of the loop begins with the scan: a turn that finds a
  free slot returns 0 with its ticket.
\<close>

theorem acquire_timeout_semantics:
  "(acquire_free_slot start evs ctx = Some (ret, t, ctx', seen) \<and> ret \<noteq> 0 \<longrightarrow>
      ret = -1 \<and> start + opt_timeout_ms ctx * 1000 \<le> seen \<and>
      slot_wait_timeout_count ctx' = slot_wait_timeout_count ctx + 1 \<and>
      (\<forall>j. 0 \<le> j \<and> j < slot_count ctx' \<longrightarrow> in_use (slots ctx' ! nat j))) \<and>
   (acquire_free_slot start evs ctx = Some (0, t, ctx', seen) \<longrightarrow>
      slot_wait_timeout_count ctx' = slot_wait_timeout_count ctx) \<and>
   ((\<forall>j. 0 \<le> j \<and> j < slot_count ctx \<longrightarrow> in_use (slots ctx ! nat j)) \<and>
    (\<forall>e \<in> set evs. released_during_wait e = []) \<and>
    (\<exists>e \<in> set evs. start + opt_timeout_ms ctx * 1000 \<le> now_us e) \<longrightarrow>
      (\<exists>seen'. acquire_free_slot start evs ctx =
          Some (-1, \<lparr>idx = -1, ticket_generation = 0\<rparr>,
                ctx\<lparr>slot_wait_timeout_count := slot_wait_timeout_count ctx + 1\<rparr>, seen') \<and>
          start + opt_timeout_ms ctx * 1000 \<le> seen')) \<and>
   ((\<forall>j. 0 \<le> j \<and> j < slot_count ctx \<longrightarrow> in_use (slots ctx ! nat j)) \<and>
    (\<forall>e \<in> set evs. released_during_wait e = []) \<and>
    waits_honoured start (start + opt_timeout_ms ctx * 1000) evs \<and>
    opt_timeout_ms ctx * 1000 \<le> 20000 * int k \<and> k < length evs \<longrightarrow>
      (\<exists>seen'. acquire_free_slot start evs ctx =
          Some (-1, \<lparr>idx = -1, ticket_generation = 0\<rparr>,
                ctx\<lparr>slot_wait_timeout_count := slot_wait_timeout_count ctx + 1\<rparr>, seen') \<and>
          start + opt_timeout_ms ctx * 1000 \<le> seen')) \<and>
   (scan_slots ctx 0 = (None, ctx) \<and> now_us e < start + opt_timeout_ms ctx * 1000 \<longrightarrow>
      acquire_free_slot start (e # es) ctx =
        acquire_loop (start + opt_timeout_ms ctx * 1000) (now_us e) es
          (apply_releases (released_during_wait e) ctx)) \<and>
   (scan_slots ctx 0 = (Some t, ctx') \<longrightarrow>
      acquire_loop d seen evs ctx = Some (0, t, ctx', seen))"
proof (intro conjI impI)
  assume a: "acquire_free_slot start evs ctx = Some (ret, t, ctx', seen) \<and> ret \<noteq> 0"
  then have "acquire_loop (start + opt_timeout_ms ctx * 1000) start evs ctx = Some (ret, t, ctx', seen)"
    by (simp add: acquire_free_slot_def)
  from acquire_loop_sound[OF this] a
  show "ret = -1" "start + opt_timeout_ms ctx * 1000 \<le> seen"
    "slot_wait_timeout_count ctx' = slot_wait_timeout_count ctx + 1"
    "\<forall>j. 0 \<le> j \<and> j < slot_count ctx' \<longrightarrow> in_use (slots ctx' ! nat j)"
    by auto
next
  assume "acquire_free_slot start evs ctx = Some (0, t, ctx', seen)"
  then have "acquire_loop (start + opt_timeout_ms ctx * 1000) start evs ctx = Some (0, t, ctx', seen)"
    by (simp add: acquire_free_slot_def)
  from acquire_loop_sound[OF this]
  show "slot_wait_timeout_count ctx' = slot_wait_timeout_count ctx" by simp
next
  assume a: "(\<forall>j. 0 \<le> j \<and> j < slot_count ctx \<longrightarrow> in_use (slots ctx ! nat j)) \<and>
    (\<forall>e \<in> set evs. released_during_wait e = []) \<and>
    (\<exists>e \<in> set evs. start + opt_timeout_ms ctx * 1000 \<le> now_us e)"
  then show "\<exists>seen'. acquire_free_slot start evs ctx =
          Some (-1, \<lparr>idx = -1, ticket_generation = 0\<rparr>,
                ctx\<lparr>slot_wait_timeout_count := slot_wait_timeout_count ctx + 1\<rparr>, seen') \<and>
          start + opt_timeout_ms ctx * 1000 \<le> seen'"
    unfolding acquire_free_slot_def
    by (intro acquire_loop_quiet_timeout) auto
next
  assume a: "(\<forall>j. 0 \<le> j \<and> j < slot_count ctx \<longrightarrow> in_use (slots ctx ! nat j)) \<and>
    (\<forall>e \<in> set evs. released_during_wait e = []) \<and>
    waits_honoured start (start + opt_timeout_ms ctx * 1000) evs \<and>
    opt_timeout_ms ctx * 1000 \<le> 20000 * int k \<and> k < length evs"
  then have "\<exists>e \<in> set evs. start + opt_timeout_ms ctx * 1000 \<le> now_us e"
    using waits_honoured_reach_deadline[of start "start + opt_timeout_ms ctx * 1000" evs k] by simp
  with a show "\<exists>seen'. acquire_free_slot start evs ctx =
          Some (-1, \<lparr>idx = -1, ticket_generation = 0\<rparr>,
                ctx\<lparr>slot_wait_timeout_count := slot_wait_timeout_count ctx + 1\<rparr>, seen') \<and>
          start + opt_timeout_ms ctx * 1000 \<le> seen'"
    unfolding acquire_free_slot_def
    by (intro acquire_loop_quiet_timeout) auto
next
  assume "scan_slots ctx 0 = (None, ctx) \<and> now_us e < start + opt_timeout_ms ctx * 1000"
  then show "acquire_free_slot start (e # es) ctx =
        acquire_loop (start + opt_timeout_ms ctx * 1000) (now_us e) es
          (apply_releases (released_during_wait e) ctx)"
    unfolding acquire_free_slot_def by (simp add: acquire_loop_recheck)
next
  assume "scan_slots ctx 0 = (Some t, ctx')"
  then show "acquire_loop d seen evs ctx = Some (0, t, ctx', seen)"
    by (rule acquire_loop_scan_first)
qed


text \<open>
  Instances with two slots, both in use, and a timeout of 50 ms from the start time
  1000000: with wake-ups at 1000003, 1020010, 1040020 and 1050007 and no release the call
  returns \<open>-1\<close> at 1050007; when slot 0 is released during the first wait, the scan after
  that wake-up hands slot 0 out with generation 2.
\<close>

theorem acquire_timeout_semantics_witness:
  "acquire_free_slot 1000000
      [\<lparr>now_us = 1000003, released_during_wait = []\<rparr>,
        \<lparr>now_us = 1020010, released_during_wait = []\<rparr>,
        \<lparr>now_us = 1040020, released_during_wait = []\<rparr>,
        \<lparr>now_us = 1050007, released_during_wait = []\<rparr>]
      ((initial_ctx 50 15 False 2 4)\<lparr>slots :=
       [\<lparr>data = [], in_use = True, generation = 1\<rparr>, \<lparr>data = [], in_use = True, generation = 1\<rparr>]\<rparr>)
    = Some (-1, \<lparr>idx = -1, ticket_generation = 0\<rparr>,
            ((initial_ctx 50 15 False 2 4)\<lparr>slots :=
       [\<lparr>data = [], in_use = True, generation = 1\<rparr>, \<lparr>data = [], in_use = True, generation = 1\<rparr>]\<rparr>)\<lparr>slot_wait_timeout_count := 1\<rparr>, 1050007) \<and>
   (1000000 :: int) + 50 * 1000 \<le> 1050007 \<and>
   waits_honoured 1000000 1050000
      [\<lparr>now_us = 1000003, released_during_wait = []\<rparr>,
        \<lparr>now_us = 1020010, released_during_wait = []\<rparr>,
        \<lparr>now_us = 1040020, released_during_wait = []\<rparr>,
        \<lparr>now_us = 1050007, released_during_wait = []\<rparr>] \<and>
   scan_slots ((initial_ctx 50 15 False 2 4)\<lparr>slots :=
       [\<lparr>data = [], in_use = True, generation = 1\<rparr>, \<lparr>data = [], in_use = True, generation = 1\<rparr>]\<rparr>) 0 = (None, ((initial_ctx 50 15 False 2 4)\<lparr>slots :=
       [\<lparr>data = [], in_use = True, generation = 1\<rparr>, \<lparr>data = [], in_use = True, generation = 1\<rparr>]\<rparr>)) \<and>
   acquire_free_slot 1000000 [\<lparr>now_us = 1000003, released_during_wait = [(\<lparr>idx = 0, ticket_generation = 1\<rparr>, True)]\<rparr>] ((initial_ctx 50 15 False 2 4)\<lparr>slots :=
       [\<lparr>data = [], in_use = True, generation = 1\<rparr>, \<lparr>data = [], in_use = True, generation = 1\<rparr>]\<rparr>)
    = Some (0, \<lparr>idx = 0, ticket_generation = 2\<rparr>,
            (initial_ctx 50 15 False 2 4)\<lparr>slots :=
       [\<lparr>data = [], in_use = True, generation = 2\<rparr>, \<lparr>data = [], in_use = True, generation = 1\<rparr>],
       released_frames := 1, slots_cond_signals := 1\<rparr>, 1000003)"
  using acquire_timeout_semantics[where start = 1000000 and evs = "[\<lparr>now_us = 1000003, released_during_wait = []\<rparr>,
        \<lparr>now_us = 1020010, released_during_wait = []\<rparr>,
        \<lparr>now_us = 1040020, released_during_wait = []\<rparr>,
        \<lparr>now_us = 1050007, released_during_wait = []\<rparr>]" and ctx = "((initial_ctx 50 15 False 2 4)\<lparr>slots :=
       [\<lparr>data = [], in_use = True, generation = 1\<rparr>, \<lparr>data = [], in_use = True, generation = 1\<rparr>]\<rparr>)" and ret = "-1"
        and t = "\<lparr>idx = -1, ticket_generation = 0\<rparr>"
        and ctx' = "((initial_ctx 50 15 False 2 4)\<lparr>slots :=
       [\<lparr>data = [], in_use = True, generation = 1\<rparr>, \<lparr>data = [], in_use = True, generation = 1\<rparr>]\<rparr>)\<lparr>slot_wait_timeout_count := 1\<rparr>" and seen = 1050007
        and e = "\<lparr>now_us = 1000003, released_during_wait = [(\<lparr>idx = 0, ticket_generation = 1\<rparr>, True)]\<rparr>" and es = "[]" and d = 0 and k = 3]
      acquire_timeout_semantics[where start = 1000000 and evs = "[\<lparr>now_us = 1000003, released_during_wait = [(\<lparr>idx = 0, ticket_generation = 1\<rparr>, True)]\<rparr>]" and ctx = "((initial_ctx 50 15 False 2 4)\<lparr>slots :=
       [\<lparr>data = [], in_use = True, generation = 1\<rparr>, \<lparr>data = [], in_use = True, generation = 1\<rparr>]\<rparr>)" and ret = 0
        and t = "\<lparr>idx = 0, ticket_generation = 2\<rparr>"
        and ctx' = "(initial_ctx 50 15 False 2 4)\<lparr>slots :=
       [\<lparr>data = [], in_use = True, generation = 2\<rparr>, \<lparr>data = [], in_use = True, generation = 1\<rparr>],
       released_frames := 1, slots_cond_signals := 1\<rparr>" and seen = 1000003
        and e = "\<lparr>now_us = 1000003, released_during_wait = [(\<lparr>idx = 0, ticket_generation = 1\<rparr>, True)]\<rparr>" and es = "[]" and d = 0 and k = 3]
      acquire_timeout_semantics[where start = 1000000 and evs = "[]" and ctx = "(initial_ctx 50 15 False 2 4)" and ret = 0
        and t = "\<lparr>idx = 0, ticket_generation = 1\<rparr>"
        and ctx' = "(initial_ctx 50 15 False 2 4)\<lparr>slots :=
       [\<lparr>data = replicate 4 0, in_use = True, generation = 1\<rparr>, \<lparr>data = replicate 4 0, in_use = False, generation = 0\<rparr>]\<rparr>" and seen = 1000000
        and e = "\<lparr>now_us = 1000003, released_during_wait = [(\<lparr>idx = 0, ticket_generation = 1\<rparr>, True)]\<rparr>" and es = "[]" and d = 0 and k = 3]
  by (simp add: acquire_free_slot_def scan_slots.simps apply_releases_def wake_us_def
        release_slot_ticket_def ticket_matches_def initial_ctx_def init_copy_slots_def Let_def)


subsection \<open>Calls as sequences of atomic steps\<close>

lemma pool_run_append: "pool_run (xs @ ys) st = pool_run ys (pool_run xs st)"
  by (simp add: pool_run_def)

lemma apply_releases_as_events:
  "\<exists>valid'. pool_run (map (\<lambda>(t, b). EvRelease t b) rs) (ctx, valid) = (apply_releases rs ctx, valid')"
proof (induction rs arbitrary: ctx valid)
  case Nil
  show ?case by (simp add: pool_run_def apply_releases_def)
next
  case (Cons r rs)
  obtain t b where r: "r = (t, b)" by (cases r)
  from Cons.IH[of "release_slot_ticket ctx t b" "if ticket_matches ctx t then remove1 t valid else valid"]
  show ?case using r by (simp add: pool_run_def apply_releases_def)
qed

lemma acquire_loop_as_events:
  "acquire_loop d seen evs ctx = Some (ret, t, ctx', seen') \<Longrightarrow>
     \<exists>pes valid'. pool_run pes (ctx, valid) = (ctx', valid') \<and> (ret = 0 \<longrightarrow> t \<in> set valid')"
proof (induction evs arbitrary: seen ctx valid)
  case Nil
  obtain r c where sc: "scan_slots ctx 0 = (r, c)" by (cases "scan_slots ctx 0")
  show ?case
  proof (cases r)
    case None
    with sc Nil.prems show ?thesis by simp
  next
    case (Some t0)
    with sc Nil.prems have "pool_run [EvScan] (ctx, valid) = (ctx', t # valid)"
      by (simp add: pool_run_def)
    then show ?thesis by (metis list.set_intros(1))
  qed
next
  case (Cons e es)
  obtain r c where sc: "scan_slots ctx 0 = (r, c)" by (cases "scan_slots ctx 0")
  show ?case
  proof (cases r)
    case (Some t0)
    with sc Cons.prems have "pool_run [EvScan] (ctx, valid) = (ctx', t # valid)"
      by (simp add: pool_run_def)
    then show ?thesis by (metis list.set_intros(1))
  next
    case None
    with sc scan_slots_None[of ctx 0 c] have c: "c = ctx" by simp
    have s1: "pool_run [EvScan] (ctx, valid) = (ctx, valid)"
      using sc None c by (simp add: pool_run_def)
    show ?thesis
    proof (cases "d \<le> now_us e")
      case True
      with sc None c Cons.prems have
        "pool_run [EvScan, EvTimeout] (ctx, valid) = (ctx', valid)" "ret \<noteq> 0"
        by (auto simp add: pool_run_def Let_def)
      then show ?thesis by blast
    next
      case False
      with sc None c Cons.prems have run:
        "acquire_loop d (now_us e) es (apply_releases (released_during_wait e) ctx) = Some (ret, t, ctx', seen')"
        by (simp add: Let_def)
      obtain v1 where v1: "pool_run (map (\<lambda>(t, b). EvRelease t b) (released_during_wait e)) (ctx, valid)
            = (apply_releases (released_during_wait e) ctx, v1)"
        using apply_releases_as_events by blast
      from Cons.IH[OF run, of v1] obtain pes valid' where
        p: "pool_run pes (apply_releases (released_during_wait e) ctx, v1) = (ctx', valid')"
           "ret = 0 \<longrightarrow> t \<in> set valid'" by blast
      have "pool_run ([EvScan] @ map (\<lambda>(t, b). EvRelease t b) (released_during_wait e) @ pes) (ctx, valid)
              = (ctx', valid')"
        using s1 v1 p(1) by (simp only: pool_run_append)
      with p(2) show ?thesis by blast
    qed
  qed
qed

subsection \<open>The mailbox\<close>

lemma push_overwrite_count:
  "infer_overwrite_count (push_latest_to_infer ctx raw) =
     infer_overwrite_count ctx + (if infer_has_new ctx then 1 else 0)"
  by (simp add: push_latest_to_infer_def Let_def)

lemma push_has_new: "infer_has_new (push_latest_to_infer ctx raw)"
  by (simp add: push_latest_to_infer_def Let_def)

lemma push_running: "running (push_latest_to_infer ctx raw) = running ctx"
  by (simp add: push_latest_to_infer_def Let_def)

lemma push_frame_size: "frame_size (push_latest_to_infer ctx raw) = frame_size ctx"
  by (simp add: push_latest_to_infer_def Let_def)

lemma push_latest_raw:
  "frame_size ctx \<le> length raw \<Longrightarrow>
     take (frame_size ctx) (infer_latest_raw (push_latest_to_infer ctx raw)) = take (frame_size ctx) raw"
  by (simp add: push_latest_to_infer_def Let_def memcpy_def)

lemma push_many_overwrite_count:
  "infer_overwrite_count (foldl push_latest_to_infer (push_latest_to_infer ctx f) fs) =
     infer_overwrite_count ctx + (if infer_has_new ctx then 1 else 0) + of_nat (length fs)"
proof (induction fs arbitrary: ctx f)
  case Nil
  show ?case by (simp add: push_overwrite_count)
next
  case (Cons g gs)
  show ?case
    using Cons.IH[of "push_latest_to_infer ctx f" g]
    by (simp add: push_overwrite_count push_has_new)
qed

text \<open>
  Claim C5. A push while the has-new flag is set adds exactly one to
  \<^verbatim>\<open>infer_overwrite_count\<close>; a push with the flag clear leaves the counter alone. After
  either push the flag is set and the sequence number is one higher, and the next locked
  section of the worker takes the frame just pushed, not the one that was in the mailbox
  before: the earlier frame is gone. The mailbox is one buffer and one flag, so after the
  worker has taken a frame a second take finds nothing and parks. A run of \<open>k\<close> more pushes
  with no take in between adds \<open>k\<close> to the counter. The push is defined in every state,
  also with the flag set: it has no loop and no wait on the worker.
\<close>

theorem push_overwrites_unconsumed_frame:
  "(infer_has_new ctx \<longrightarrow>
      infer_overwrite_count (push_latest_to_infer ctx raw) = infer_overwrite_count ctx + 1) \<and>
   (\<not> infer_has_new ctx \<longrightarrow>
      infer_overwrite_count (push_latest_to_infer ctx raw) = infer_overwrite_count ctx) \<and>
   infer_has_new (push_latest_to_infer ctx raw) \<and>
   infer_frame_seq (push_latest_to_infer ctx raw) = infer_frame_seq ctx + 1 \<and>
   (running ctx \<and> frame_size ctx \<le> length raw \<longrightarrow>
      infer_take (push_latest_to_infer ctx raw) =
        (WorkerTook (take (frame_size ctx) raw) (infer_frame_seq ctx + 1),
         (push_latest_to_infer ctx raw)\<lparr>infer_has_new := False\<rparr>)) \<and>
   (running ctx \<longrightarrow> fst (infer_take (snd (infer_take ctx))) = WorkerParked) \<and>
   infer_overwrite_count (foldl push_latest_to_infer (push_latest_to_infer ctx raw) later) =
     infer_overwrite_count ctx + (if infer_has_new ctx then 1 else 0) + of_nat (length later)"
proof (intro conjI impI)
  show "infer_overwrite_count (foldl push_latest_to_infer (push_latest_to_infer ctx raw) later) =
     infer_overwrite_count ctx + (if infer_has_new ctx then 1 else 0) + of_nat (length later)"
    by (rule push_many_overwrite_count)
next
  assume "running ctx \<and> frame_size ctx \<le> length raw"
  then show "infer_take (push_latest_to_infer ctx raw) =
        (WorkerTook (take (frame_size ctx) raw) (infer_frame_seq ctx + 1),
         (push_latest_to_infer ctx raw)\<lparr>infer_has_new := False\<rparr>)"
    using push_latest_raw[of ctx raw]
    by (simp add: infer_take_def push_has_new push_running push_frame_size)
       (simp add: push_latest_to_infer_def Let_def)
next
  assume "running ctx"
  then show "fst (infer_take (snd (infer_take ctx))) = WorkerParked"
    by (simp add: infer_take_def)
qed (simp_all add: push_overwrite_count push_has_new, simp add: push_latest_to_infer_def Let_def)

text \<open>
  Instances: a mailbox holding frame 7 unconsumed with three earlier overwrites, and the
  fresh mailbox followed by two more pushes.
\<close>

theorem push_overwrites_unconsumed_frame_witness:
  "infer_has_new ((initial_ctx 5000 15 False 2 4)\<lparr>infer_has_new := True,
      infer_latest_raw := [9, 9, 9, 9], infer_frame_seq := 7, infer_overwrite_count := 3\<rparr>) \<and>
   infer_overwrite_count (push_latest_to_infer ((initial_ctx 5000 15 False 2 4)\<lparr>infer_has_new := True,
      infer_latest_raw := [9, 9, 9, 9], infer_frame_seq := 7, infer_overwrite_count := 3\<rparr>) [1, 2, 3, 4]) = 4 \<and>
   fst (infer_take (push_latest_to_infer ((initial_ctx 5000 15 False 2 4)\<lparr>infer_has_new := True,
      infer_latest_raw := [9, 9, 9, 9], infer_frame_seq := 7, infer_overwrite_count := 3\<rparr>) [1, 2, 3, 4]))
     = WorkerTook [1, 2, 3, 4] 8 \<and>
   \<not> infer_has_new (initial_ctx 5000 15 False 2 4) \<and>
   infer_overwrite_count (push_latest_to_infer (initial_ctx 5000 15 False 2 4) [1, 2, 3, 4]) = 0 \<and>
   infer_overwrite_count (foldl push_latest_to_infer
      (push_latest_to_infer (initial_ctx 5000 15 False 2 4) [1, 2, 3, 4]) [[5, 6, 7, 8], [9, 10, 11, 12]]) = 2"
  using push_overwrites_unconsumed_frame[of "(initial_ctx 5000 15 False 2 4)\<lparr>infer_has_new := True,
      infer_latest_raw := [9, 9, 9, 9], infer_frame_seq := 7, infer_overwrite_count := 3\<rparr>" "[1, 2, 3, 4]" "[]"]
    push_overwrites_unconsumed_frame[of "initial_ctx 5000 15 False 2 4" "[1, 2, 3, 4]" "[[5, 6, 7, 8], [9, 10, 11, 12]]"]
  by (simp add: initial_ctx_def)

subsection \<open>Failure on the display path\<close>

lemma release_pool_wf: "pool_wf ctx \<Longrightarrow> pool_wf (release_slot_ticket ctx t b)"
  by (cases "ticket_matches ctx t") (simp_all add: release_no_match release_match pool_wf_def)

lemma apply_releases_pool_wf: "pool_wf ctx \<Longrightarrow> pool_wf (apply_releases rs ctx)"
  unfolding apply_releases_def
  by (induction rs arbitrary: ctx) (simp_all add: release_pool_wf split: prod.splits)

lemma push_pool_wf: "pool_wf (push_latest_to_infer ctx raw) = pool_wf ctx"
  by (simp add: push_latest_to_infer_def Let_def pool_wf_def)

lemma ticket_matches_iff:
  "ticket_matches ctx t \<longleftrightarrow>
     0 \<le> idx t \<and> idx t < slot_count ctx \<and> in_use (slots ctx ! nat (idx t)) \<and>
     generation (slots ctx ! nat (idx t)) = ticket_generation t"
  by (auto simp add: ticket_matches_def)

lemma scan_success_matches:
  assumes sc: "scan_slots ctx 0 = (Some t, ctx')" and wf: "pool_wf ctx"
  shows "pool_wf ctx' \<and> ticket_matches ctx' t"
proof -
  note s = scan_slots_Some[OF sc]
  from wf have w: "slot_count ctx = int (length (slots ctx))" by (simp add: pool_wf_def)
  from s w have k: "nat (idx t) < length (slots ctx)" by auto
  from s have c: "ctx' = ctx\<lparr>slots := (slots ctx)[nat (idx t) :=
              (slots ctx ! nat (idx t))\<lparr>in_use := True,
                 generation := generation (slots ctx ! nat (idx t)) + 1\<rparr>]\<rparr>" by simp
  have "pool_wf ctx'" using w c by (simp add: pool_wf_def)
  moreover have "ticket_matches ctx' t"
    using s k by (simp add: ticket_matches_iff c)
  ultimately show ?thesis by simp
qed

lemma acquire_loop_success:
  "acquire_loop d seen evs ctx = Some (0, t, ctx', seen') \<Longrightarrow> pool_wf ctx \<Longrightarrow>
     pool_wf ctx' \<and> ticket_matches ctx' t"
proof (induction evs arbitrary: seen ctx)
  case Nil
  obtain r c where sc: "scan_slots ctx 0 = (r, c)" by (cases "scan_slots ctx 0")
  show ?case
  proof (cases r)
    case None
    with sc Nil.prems show ?thesis by simp
  next
    case (Some t0)
    with sc Nil.prems have "scan_slots ctx 0 = (Some t, ctx')" by simp
    from scan_success_matches[OF this Nil.prems(2)] show ?thesis .
  qed
next
  case (Cons e es)
  obtain r c where sc: "scan_slots ctx 0 = (r, c)" by (cases "scan_slots ctx 0")
  show ?case
  proof (cases r)
    case (Some t0)
    with sc Cons.prems have "scan_slots ctx 0 = (Some t, ctx')" by simp
    from scan_success_matches[OF this Cons.prems(2)] show ?thesis .
  next
    case None
    with sc scan_slots_None[of ctx 0 c] have c: "c = ctx" by simp
    show ?thesis
    proof (cases "d \<le> now_us e")
      case True
      with sc None c Cons.prems show ?thesis by (simp add: Let_def)
    next
      case False
      with sc None c Cons.prems have run:
        "acquire_loop d (now_us e) es (apply_releases (released_during_wait e) ctx) = Some (0, t, ctx', seen')"
        by (simp add: Let_def)
      from Cons.IH[OF run apply_releases_pool_wf[OF Cons.prems(2)]] show ?thesis .
    qed
  qed
qed

lemma refused_push_state_eq:
  assumes wf: "pool_wf ctx" and m: "ticket_matches ctx t"
  shows "refused_push_state ctx t =
           ctx\<lparr>next_pts_ns := next_pts_ns ctx + word_of_int (1000000000 div opt_fps ctx),
               slots := (slots ctx)[nat (idx t) := (slots ctx ! nat (idx t))\<lparr>in_use := False\<rparr>],
               released_frames := released_frames ctx + 1,
               slots_cond_signals := slots_cond_signals ctx + 1\<rparr>"
proof -
  let ?c = "ctx\<lparr>next_pts_ns := next_pts_ns ctx + word_of_int (1000000000 div opt_fps ctx)\<rparr>"
  have m': "ticket_matches ?c t" using m by (simp add: ticket_matches_iff)
  show ?thesis
    by (simp add: refused_push_state_def build_frame_buffer_def Let_def gst_app_src_push_buffer_def
          frame_release_notify_def release_match[OF m'])
qed

lemma refused_push_state_free:
  assumes wf: "pool_wf ctx" and m: "ticket_matches ctx t"
  shows "\<not> ticket_matches (refused_push_state ctx t) t"
proof -
  from wf m have k: "nat (idx t) < length (slots ctx)"
    by (auto simp add: pool_wf_def ticket_matches_iff)
  then show ?thesis
    by (simp add: refused_push_state_eq[OF wf m] ticket_matches_iff)
qed

lemma dispatch_refused_push:
  "display_dispatch WrapSucceeds False ctx t =
     (Break, release_slot_ticket (refused_push_state ctx t) t False)"
  by (simp add: display_dispatch_def refused_push_state_def build_frame_buffer_def Let_def
        gst_app_src_push_buffer_def)

lemma dispatch_failure:
  assumes wf: "pool_wf ctx" and m: "ticket_matches ctx t"
    and f: "outcome = WrapFails \<or> (outcome = WrapSucceeds \<and> \<not> flow_ok)"
  shows "fst (display_dispatch outcome flow_ok ctx t) = Break \<and>
         \<not> in_use (slots (snd (display_dispatch outcome flow_ok ctx t)) ! nat (idx t)) \<and>
         released_frames (snd (display_dispatch outcome flow_ok ctx t)) =
           released_frames ctx + (if outcome = WrapFails then 0 else 1) \<and>
         pushed_frames (snd (display_dispatch outcome flow_ok ctx t)) = pushed_frames ctx \<and>
         slots_cond_signals (snd (display_dispatch outcome flow_ok ctx t)) = slots_cond_signals ctx + 1"
proof -
  from wf m have k: "nat (idx t) < length (slots ctx)"
    by (auto simp add: pool_wf_def ticket_matches_iff)
  from f show ?thesis
  proof
    assume "outcome = WrapFails"
    then show ?thesis using m k
      by (simp add: display_dispatch_def build_frame_buffer_def release_match)
  next
    assume a: "outcome = WrapSucceeds \<and> \<not> flow_ok"
    then have o: "outcome = WrapSucceeds" and fl: "flow_ok = False" by simp_all
    have d: "display_dispatch WrapSucceeds False ctx t = (Break, refused_push_state ctx t)"
      using dispatch_refused_push[of ctx t]
        release_no_match[OF refused_push_state_free[OF wf m], of False] by simp
    show ?thesis using k
      by (simp add: o fl d refused_push_state_eq[OF wf m])
  qed
qed

text \<open>
  The third way \<^verbatim>\<open>build_frame_buffer\<close> can return \<^verbatim>\<open>NULL\<close> is its first test,
  \<^verbatim>\<open>if (!cookie) return NULL\<close>, which releases nothing. \<^verbatim>\<open>g_new0\<close> aborts the process rather than
  return \<^verbatim>\<open>NULL\<close> for a non-empty request, so the branch is not taken in a run.
\<close>

lemma dispatch_cookie_failure_keeps_slot:
  "display_dispatch CookieAllocFails flow_ok ctx t = (Break, ctx)"
  by (simp add: display_dispatch_def build_frame_buffer_def)

text \<open>
  Claim C9, as the code has it. Take a turn of the capture loop that gets as far as a
  ticket \<open>t\<close> from \<^verbatim>\<open>acquire_free_slot\<close>. If then \<^verbatim>\<open>gst_buffer_new_wrapped_full\<close> returns no
  buffer, or the buffer is built and \<^verbatim>\<open>gst_app_src_push_buffer\<close> does not return
  \<^verbatim>\<open>GST_FLOW_OK\<close>, the turn ends with \<^verbatim>\<open>break\<close>: the loop returns at once, whatever later turns
  would have brought, the slot of \<open>t\<close> is free again, the condition variable has been
  signalled once and \<^verbatim>\<open>pushed_frames\<close> has not moved. When the wrap fails, the release inside
  \<^verbatim>\<open>build_frame_buffer\<close> frees the slot and \<^verbatim>\<open>released_frames\<close> stays as it was. When the push
  is refused, the refused buffer's release callback has freed the slot and added one to
  \<^verbatim>\<open>released_frames\<close> before the push returns, and the producer's own release call, made in
  that state, changes nothing.
\<close>

theorem display_failure_releases_and_stops:
  assumes run: "running ctx" and stop: "\<not> g_stop env" and bus: "bus_ok env"
    and dma: "dma_frame env = Some f" and wf: "pool_wf ctx"
    and acq: "acquire_free_slot (acquire_start_us env) (acquire_waits env)
                (push_latest_to_infer (ctx\<lparr>dma_copy := f, captured_frames := captured_frames ctx + 1\<rparr>) f)
              = Some (0, t, ctx5, seen)"
    and fail: "build_answer env = WrapFails \<or> (build_answer env = WrapSucceeds \<and> \<not> push_ok env)"
  shows "(\<exists>c'. capture_iteration env ctx = Some (Break, c') \<and>
              capture_loop (env # envs) ctx = Some c' \<and>
              \<not> in_use (slots c' ! nat (idx t)) \<and>
              released_frames c' =
                released_frames ctx5 + (if build_answer env = WrapFails then 0 else 1) \<and>
              pushed_frames c' = pushed_frames ctx5 \<and>
              slots_cond_signals c' = slots_cond_signals ctx5 + 1) \<and>
         released_frames (refused_push_state ctx5 t) = released_frames ctx5 + 1 \<and>
         release_slot_ticket (refused_push_state ctx5 t) t False = refused_push_state ctx5 t"
proof -
  let ?ctx4 = "push_latest_to_infer (ctx\<lparr>dma_copy := f, captured_frames := captured_frames ctx + 1\<rparr>) f"
  have wf4: "pool_wf ?ctx4" using wf by (simp add: push_pool_wf) (simp add: pool_wf_def)
  from acq have "acquire_loop (acquire_start_us env + opt_timeout_ms ?ctx4 * 1000) (acquire_start_us env)
      (acquire_waits env) ?ctx4 = Some (0, t, ctx5, seen)" by (simp add: acquire_free_slot_def)
  from acquire_loop_success[OF this wf4] have wf5: "pool_wf ctx5" and m5: "ticket_matches ctx5 t" by simp_all
  let ?i = "nat (idx t)"
  let ?ctx6 = "ctx5\<lparr>slots := (slots ctx5)[?i := (slots ctx5 ! ?i)\<lparr>data :=
      overlay env (copy_frame_to_slot565 ctx5 (data (slots ctx5 ! ?i)) (dma_copy ctx5))\<rparr>]\<rparr>"
  from wf5 m5 have k: "?i < length (slots ctx5)"
    by (auto simp add: pool_wf_def ticket_matches_iff)
  have wf6: "pool_wf ?ctx6" using wf5 by (simp add: pool_wf_def)
  have m6: "ticket_matches ?ctx6 t" using m5 k by (simp add: ticket_matches_iff)
  have it: "capture_iteration env ctx = Some (display_dispatch (build_answer env) (push_ok env) ?ctx6 t)"
    using run stop bus dma acq by (simp add: capture_iteration_def Let_def)
  note d = dispatch_failure[OF wf6 m6 fail]
  let ?r = "display_dispatch (build_answer env) (push_ok env) ?ctx6 t"
  have r: "?r = (Break, snd ?r)" using d by (metis prod.collapse)
  have "capture_iteration env ctx = Some (Break, snd ?r)" using it r by simp
  moreover then have "capture_loop (env # envs) ctx = Some (snd ?r)" using run by simp
  moreover have "\<not> in_use (slots (snd ?r) ! ?i)" using d by simp
  moreover have "released_frames (snd ?r) =
      released_frames ctx5 + (if build_answer env = WrapFails then 0 else 1)" using d by simp
  moreover have "pushed_frames (snd ?r) = pushed_frames ctx5" using d by simp
  moreover have "slots_cond_signals (snd ?r) = slots_cond_signals ctx5 + 1" using d by simp
  ultimately have first: "\<exists>c'. capture_iteration env ctx = Some (Break, c') \<and>
              capture_loop (env # envs) ctx = Some c' \<and>
              \<not> in_use (slots c' ! nat (idx t)) \<and>
              released_frames c' =
                released_frames ctx5 + (if build_answer env = WrapFails then 0 else 1) \<and>
              pushed_frames c' = pushed_frames ctx5 \<and>
              slots_cond_signals c' = slots_cond_signals ctx5 + 1" by blast
  have second: "released_frames (refused_push_state ctx5 t) = released_frames ctx5 + 1"
    by (simp add: refused_push_state_eq[OF wf5 m5])
  have third: "release_slot_ticket (refused_push_state ctx5 t) t False = refused_push_state ctx5 t"
    by (rule release_no_match[OF refused_push_state_free[OF wf5 m5]])
  from first second third show ?thesis by blast
qed

text \<open>
  Instances on the fresh pool of two slots, with a second turn queued behind the failing
  one: the wrap fails, and the push is refused. In both the loop stops after one captured
  frame with slot 0 free; \<^verbatim>\<open>released_frames\<close> is 0 after the failed wrap and 1 after the
  refused push.
\<close>

theorem display_failure_releases_and_stops_witness:
  "(\<exists>c'. capture_loop
           [\<lparr>g_stop = False, bus_ok = True, dma_frame = Some [1, 2, 3, 4], acquire_start_us = 0,
             acquire_waits = [], overlay = (\<lambda>x. x), build_answer = WrapFails, push_ok = True\<rparr>,
            \<lparr>g_stop = False, bus_ok = True, dma_frame = Some [5, 6, 7, 8], acquire_start_us = 0,
             acquire_waits = [], overlay = (\<lambda>x. x), build_answer = WrapSucceeds, push_ok = True\<rparr>]
           (initial_ctx 5000 15 False 2 4) = Some c' \<and>
         \<not> in_use (slots c' ! 0) \<and> released_frames c' = 0 \<and> pushed_frames c' = 0 \<and>
         captured_frames c' = 1) \<and>
   (\<exists>c'. capture_loop
           [\<lparr>g_stop = False, bus_ok = True, dma_frame = Some [1, 2, 3, 4], acquire_start_us = 0,
             acquire_waits = [], overlay = (\<lambda>x. x), build_answer = WrapSucceeds, push_ok = False\<rparr>,
            \<lparr>g_stop = False, bus_ok = True, dma_frame = Some [5, 6, 7, 8], acquire_start_us = 0,
             acquire_waits = [], overlay = (\<lambda>x. x), build_answer = WrapSucceeds, push_ok = True\<rparr>]
           (initial_ctx 5000 15 False 2 4) = Some c' \<and>
         \<not> in_use (slots c' ! 0) \<and> released_frames c' = 1 \<and> pushed_frames c' = 0 \<and>
         captured_frames c' = 1)"
proof -
  let ?ctx = "initial_ctx 5000 15 False 2 4"
  let ?e1 = "\<lparr>g_stop = False, bus_ok = True, dma_frame = Some [1, 2, 3, 4], acquire_start_us = 0,
             acquire_waits = [], overlay = (\<lambda>x. x), build_answer = WrapFails, push_ok = True\<rparr>"
  let ?e2 = "\<lparr>g_stop = False, bus_ok = True, dma_frame = Some [1, 2, 3, 4], acquire_start_us = 0,
             acquire_waits = [], overlay = (\<lambda>x. x), build_answer = WrapSucceeds, push_ok = False\<rparr>"
  let ?e3 = "\<lparr>g_stop = False, bus_ok = True, dma_frame = Some [5, 6, 7, 8], acquire_start_us = 0,
             acquire_waits = [], overlay = (\<lambda>x. x), build_answer = WrapSucceeds, push_ok = True\<rparr>"
  let ?ctx4 = "push_latest_to_infer (?ctx\<lparr>dma_copy := [1, 2, 3, 4], captured_frames := captured_frames ?ctx + 1\<rparr>) [1, 2, 3, 4]"
  let ?ctx5 = "?ctx4\<lparr>slots := [\<lparr>data = replicate 4 0, in_use = True, generation = 1\<rparr>,
                               \<lparr>data = replicate 4 0, in_use = False, generation = 0\<rparr>]\<rparr>"
  have run: "running ?ctx" by (simp add: initial_ctx_def)
  have wf: "pool_wf ?ctx" by (simp add: initial_ctx_def init_copy_slots_def pool_wf_def)
  have acq: "acquire_free_slot 0 [] ?ctx4 = Some (0, \<lparr>idx = 0, ticket_generation = 1\<rparr>, ?ctx5, 0)"
    by (simp add: acquire_free_slot_def scan_slots.simps push_latest_to_infer_def Let_def
          initial_ctx_def init_copy_slots_def numeral_2_eq_2)
  have cnt: "released_frames ?ctx5 = 0" "pushed_frames ?ctx5 = 0" "captured_frames ?ctx5 = 1"
    by (simp_all add: push_latest_to_infer_def Let_def initial_ctx_def)
  have a1: "acquire_free_slot (acquire_start_us ?e1) (acquire_waits ?e1) ?ctx4
              = Some (0, \<lparr>idx = 0, ticket_generation = 1\<rparr>, ?ctx5, 0)"
    using acq by simp
  have a2: "acquire_free_slot (acquire_start_us ?e2) (acquire_waits ?e2) ?ctx4
              = Some (0, \<lparr>idx = 0, ticket_generation = 1\<rparr>, ?ctx5, 0)"
    using acq by simp
  have f1: "build_answer ?e1 = WrapFails \<or> (build_answer ?e1 = WrapSucceeds \<and> \<not> push_ok ?e1)" by simp
  have f2: "build_answer ?e2 = WrapFails \<or> (build_answer ?e2 = WrapSucceeds \<and> \<not> push_ok ?e2)" by simp
  note r1 = display_failure_releases_and_stops[of ?ctx ?e1 "[1, 2, 3, 4]" "\<lparr>idx = 0, ticket_generation = 1\<rparr>" ?ctx5 0, OF run _ _ _ wf a1 f1]
  note r2 = display_failure_releases_and_stops[of ?ctx ?e2 "[1, 2, 3, 4]" "\<lparr>idx = 0, ticket_generation = 1\<rparr>" ?ctx5 0, OF run _ _ _ wf a2 f2]
  have c1: "captured_frames (the (capture_loop [?e1, ?e3] ?ctx)) = 1"
    by (simp add: capture_iteration_def acquire_free_slot_def scan_slots.simps push_latest_to_infer_def Let_def
          initial_ctx_def init_copy_slots_def display_dispatch_def build_frame_buffer_def
          release_slot_ticket_def ticket_matches_def numeral_2_eq_2)
  have c2: "captured_frames (the (capture_loop [?e2, ?e3] ?ctx)) = 1"
    by (simp add: capture_iteration_def acquire_free_slot_def scan_slots.simps push_latest_to_infer_def Let_def
          initial_ctx_def init_copy_slots_def display_dispatch_def build_frame_buffer_def
          gst_app_src_push_buffer_def frame_release_notify_def
          release_slot_ticket_def ticket_matches_def copy_frame_to_slot565_def memcpy_def numeral_2_eq_2)
  show ?thesis
    using r1[of "[?e3]"] r2[of "[?e3]"] cnt c1 c2
    by auto
qed

text \<open>
  Claim C9 as stated fails on the refused push. Slot 0 is in use under the ticket with
  generation 1; the buffer is built and the push refuses it. \<^verbatim>\<open>released_frames\<close> is then one
  higher than before, and the release the producer makes itself, with \<^verbatim>\<open>count_release\<close>
  false, finds the slot already free and is not the call that freed it.
\<close>

theorem refused_push_counts_a_release:
  "released_frames (snd (display_dispatch WrapSucceeds False ((initial_ctx 5000 15 False 2 4)\<lparr>slots :=
       [\<lparr>data = [], in_use = True, generation = 1\<rparr>, \<lparr>data = [], in_use = False, generation = 0\<rparr>]\<rparr>)
       \<lparr>idx = 0, ticket_generation = 1\<rparr>))
     = released_frames ((initial_ctx 5000 15 False 2 4)\<lparr>slots :=
       [\<lparr>data = [], in_use = True, generation = 1\<rparr>, \<lparr>data = [], in_use = False, generation = 0\<rparr>]\<rparr>) + 1 \<and>
   released_frames ((initial_ctx 5000 15 False 2 4)\<lparr>slots :=
       [\<lparr>data = [], in_use = True, generation = 1\<rparr>, \<lparr>data = [], in_use = False, generation = 0\<rparr>]\<rparr>) + 1 \<noteq> released_frames ((initial_ctx 5000 15 False 2 4)\<lparr>slots :=
       [\<lparr>data = [], in_use = True, generation = 1\<rparr>, \<lparr>data = [], in_use = False, generation = 0\<rparr>]\<rparr>) \<and>
   release_slot_ticket (refused_push_state ((initial_ctx 5000 15 False 2 4)\<lparr>slots :=
       [\<lparr>data = [], in_use = True, generation = 1\<rparr>, \<lparr>data = [], in_use = False, generation = 0\<rparr>]\<rparr>)
       \<lparr>idx = 0, ticket_generation = 1\<rparr>) \<lparr>idx = 0, ticket_generation = 1\<rparr> False
     = refused_push_state ((initial_ctx 5000 15 False 2 4)\<lparr>slots :=
       [\<lparr>data = [], in_use = True, generation = 1\<rparr>, \<lparr>data = [], in_use = False, generation = 0\<rparr>]\<rparr>) \<lparr>idx = 0, ticket_generation = 1\<rparr>"
  by (simp add: display_dispatch_def refused_push_state_def build_frame_buffer_def Let_def
        gst_app_src_push_buffer_def frame_release_notify_def release_slot_ticket_def
        ticket_matches_def initial_ctx_def init_copy_slots_def)


section \<open>Properties of the DMA driver\<close>

subsection \<open>Chunk size\<close>

lemma fff_is_mask: "(0xFFF :: u64) = mask 12"
  by (simp add: mask_eq_exp_minus_1)

lemma unat_and_fff: "unat (a AND (0xFFF :: u64)) = unat a mod 4096"
  by (simp add: fff_is_mask flip: take_bit_eq_mask) (simp add: unsigned_take_bit_eq take_bit_eq_mod unat_mod)

lemma and_fff_le: "unat (a AND (0xFFF::u64)) \<le> 4095"
  using word_and_le1[of a "0xFFF"] by (simp add: word_le_nat_alt)

lemma chunk_size_for_nat:
  "\<exists>cs. chunk_size_for a remaining = Emit cs \<and>
          unat cs = min (min (unat remaining) 4096) (4096 - unat a mod 4096)"
proof -
  let ?o = "a AND (0xFFF::u64)"
  let ?c = "min remaining DMA_MAX_LEN_BYTES"
  have o: "unat ?o \<le> 4095" by (rule and_fff_le)
  have c: "unat ?c = min (unat remaining) 4096"
    by (simp add: DMA_MAX_LEN_BYTES_def DMA_MAX_LEN_DWORDS_def min_def word_le_nat_alt)
  have sum: "unat (?o + ?c) = unat ?o + unat ?c"
    using o c by (simp add: unat_add_lem[THEN iffD1])
  have gt: "(?o + ?c > 0x1000) \<longleftrightarrow> unat ?o + unat ?c > 4096"
    using sum by (simp add: word_less_nat_alt)
  have sub: "unat (0x1000 - ?o) = 4096 - unat ?o"
    using o by (simp add: unat_sub word_le_nat_alt)
  have nz: "0x1000 - ?o \<noteq> 0"
  proof
    assume "0x1000 - ?o = 0"
    then have "unat (0x1000 - ?o) = 0" by simp
    with sub o show False by simp
  qed
  show ?thesis
  proof (cases "?o + ?c > 0x1000")
    case True
    then have "chunk_size_for a remaining = Emit (0x1000 - ?o)"
      using nz by (simp add: chunk_size_for_def Let_def)
    moreover have "unat (0x1000 - ?o) = min (min (unat remaining) 4096) (4096 - unat ?o)"
      using True gt sub c by simp
    ultimately show ?thesis by (simp add: unat_and_fff)
  next
    case False
    then have "chunk_size_for a remaining = Emit ?c"
      by (simp add: chunk_size_for_def Let_def)
    moreover have "unat ?c = min (min (unat remaining) 4096) (4096 - unat ?o)"
      using False gt c by simp
    ultimately show ?thesis by (simp add: unat_and_fff)
  qed
qed

lemma chunk_size_for_never_realigns: "chunk_size_for a remaining \<noteq> Realign x"
  using chunk_size_for_nat[of a remaining] by auto

lemma chunk_size_for_aligned:
  assumes "a AND 0xFFF = 0"
  shows "chunk_size_for a remaining = Emit (min remaining DMA_MAX_LEN_BYTES)"
proof -
  have "unat (min remaining DMA_MAX_LEN_BYTES) \<le> 4096"
    by (simp add: DMA_MAX_LEN_BYTES_def DMA_MAX_LEN_DWORDS_def min_def word_le_nat_alt)
  then have h: "\<not> (min remaining DMA_MAX_LEN_BYTES > 0x1000)"
    by (simp add: word_less_nat_alt)
  show ?thesis
    unfolding chunk_size_for_def Let_def
    by (simp only: assms add_0 h if_False)
qed

subsection \<open>The chunk sequence of a transfer\<close>

lemma issue_chunk_logs:
  "bar1_writes (issue_chunk dev p h a cs n s) =
     bar1_writes s @ [(BAR1_DMA_L_ADDR, lower_32_bits a), (BAR1_DMA_H_ADDR, upper_32_bits a),
                      (BAR1_DMA_CMD_REG, cmd_reg cs)] \<and>
   emitted (issue_chunk dev p h a cs n s) = emitted s @ [(a, cs)]"
  by (simp add: issue_chunk_def Let_def env_step_def fpga_dma_write_reg_def)

lemma env_step_logs:
  "bar1_writes (env_step dev us s) = bar1_writes s \<and> emitted (env_step dev us s) = emitted s"
  by (simp add: env_step_def Let_def)

lemma chunk_pacing_logs:
  "bar1_writes (chunk_pacing dev p s) = bar1_writes s \<and> emitted (chunk_pacing dev p s) = emitted s"
  by (simp add: chunk_pacing_def env_step_logs)

lemma poll_loop_logs:
  "poll_loop fuel dev p t0 t1 deadline cur cnt s = Some (r, s') \<Longrightarrow>
     bar1_writes s' = bar1_writes s \<and> emitted s' = emitted s"
proof (induction fuel arbitrary: cur cnt s)
  case 0
  then show ?case by simp
next
  case (Suc fuel)
  show ?case
  proof (cases "sentinel_pending t0 t1 (mem s)")
    case False
    with Suc.prems show ?thesis by simp
  next
    case pend: True
    show ?thesis
    proof (cases "time_after (jiffies s) deadline")
      case True
      with pend Suc.prems show ?thesis by simp
    next
      case late: False
      show ?thesis
      proof (cases "sint cur \<le> 0")
        case True
        with pend late Suc.prems have
          "poll_loop fuel dev p t0 t1 deadline cur cnt (env_step dev 0 s) = Some (r, s')" by simp
        from Suc.IH[OF this] show ?thesis by (simp add: env_step_logs)
      next
        case False
        let ?cur1 = "if sint (dma_poll_sleep_max_us p) > 0 \<and>
                           sint cur > sint (dma_poll_sleep_max_us p)
                        then dma_poll_sleep_max_us p else cur"
        from False pend late Suc.prems have
          "poll_loop fuel dev p t0 t1 deadline (fst (backoff p ?cur1 cnt)) (snd (backoff p ?cur1 cnt))
             (env_step dev (sint ?cur1) s) = Some (r, s')" by (simp add: Let_def)
        from Suc.IH[OF this] show ?thesis by (simp add: env_step_logs)
      qed
    qed
  qed
qed

lemma poll_loop_timed_out:
  "poll_loop fuel dev p t0 t1 deadline cur cnt s = Some (TimedOut, s') \<Longrightarrow>
     sentinel_pending t0 t1 (mem s') \<and> time_after (jiffies s') deadline"
proof (induction fuel arbitrary: cur cnt s)
  case 0
  then show ?case by simp
next
  case (Suc fuel)
  show ?case
  proof (cases "sentinel_pending t0 t1 (mem s)")
    case False
    with Suc.prems show ?thesis by simp
  next
    case pend: True
    show ?thesis
    proof (cases "time_after (jiffies s) deadline")
      case True
      with pend Suc.prems show ?thesis by simp
    next
      case late: False
      show ?thesis
      proof (cases "sint cur \<le> 0")
        case True
        with pend late Suc.prems have
          "poll_loop fuel dev p t0 t1 deadline cur cnt (env_step dev 0 s) = Some (TimedOut, s')" by simp
        from Suc.IH[OF this] show ?thesis .
      next
        case False
        let ?cur1 = "if sint (dma_poll_sleep_max_us p) > 0 \<and>
                           sint cur > sint (dma_poll_sleep_max_us p)
                        then dma_poll_sleep_max_us p else cur"
        from False pend late Suc.prems have
          "poll_loop fuel dev p t0 t1 deadline (fst (backoff p ?cur1 cnt)) (snd (backoff p ?cur1 cnt))
             (env_step dev (sint ?cur1) s) = Some (TimedOut, s')" by (simp add: Let_def)
        from Suc.IH[OF this] show ?thesis .
      qed
    qed
  qed
qed

lemma same_page:
  fixes a m :: nat
  assumes "1 \<le> m" and "m \<le> 4096 - a mod 4096"
  shows "a div 4096 = (a + m - 1) div 4096"
proof -
  have a: "a = 4096 * (a div 4096) + a mod 4096" by simp
  have lt: "a mod 4096 + m - 1 < 4096" using assms by simp
  have "a + m - 1 = 4096 * (a div 4096) + (a mod 4096 + m - 1)" using assms a by linarith
  then have "(a + m - 1) div 4096 = (4096 * (a div 4096) + (a mod 4096 + m - 1)) div 4096" by simp
  also have "\<dots> = a div 4096" using lt by simp
  finally show ?thesis by simp
qed

lemma chunk_size_for_ok:
  assumes "remaining \<noteq> 0"
  obtains cs where "chunk_size_for a remaining = Emit cs" "chunk_ok (a, cs)" "cs \<le> remaining"
    "unat (remaining - cs) = unat remaining - unat cs"
proof -
  obtain cs where cs: "chunk_size_for a remaining = Emit cs"
    "unat cs = min (min (unat remaining) 4096) (4096 - unat a mod 4096)"
    using chunk_size_for_nat by blast
  from assms have r: "0 < unat remaining" by (simp add: unat_gt_0)
  have m: "unat a mod 4096 < 4096" by simp
  from r m cs(2) have pos: "1 \<le> unat cs" by simp
  from cs(2) have le: "unat cs \<le> 4096 - unat a mod 4096" "unat cs \<le> 4096" "unat cs \<le> unat remaining"
    by simp_all
  have nz: "cs \<noteq> 0" using pos by (auto simp add: unat_gt_0)
  have lemax: "cs \<le> DMA_MAX_LEN_BYTES"
    using le(2) by (simp add: DMA_MAX_LEN_BYTES_def DMA_MAX_LEN_DWORDS_def word_le_nat_alt)
  have page: "unat a div 4096 = (unat a + unat cs - 1) div 4096"
    by (rule same_page[OF pos le(1)])
  have lerem: "cs \<le> remaining" using le(3) by (simp add: word_le_nat_alt)
  have sub: "unat (remaining - cs) = unat remaining - unat cs"
    using lerem by (simp add: unat_sub)
  show ?thesis
    using that[OF cs(1) _ lerem sub] nz lemax page by (simp add: chunk_ok_def)
qed

lemma transfer_loop_chunks:
  "transfer_loop fuel dev p h remaining addr n s = Some (r, s') \<Longrightarrow>
     \<exists>cs. emitted s' = emitted s @ cs \<and>
          bar1_writes s' = bar1_writes s @ concat (map chunk_regs cs) \<and>
          contiguous_from addr cs \<and>
          (\<forall>c \<in> set cs. chunk_ok c) \<and>
          sum_list (map (\<lambda>c. unat (snd c)) cs) \<le> unat remaining \<and>
          (r = Inr () \<longrightarrow> sum_list (map (\<lambda>c. unat (snd c)) cs) = unat remaining) \<and>
          (r = Inl ETIMEDOUT \<longrightarrow> cs \<noteq> [])"
proof (induction fuel arbitrary: remaining addr n s)
  case 0
  then show ?case by simp
next
  case (Suc fuel)
  show ?case
  proof (cases "remaining = 0")
    case True
    with Suc.prems show ?thesis by auto
  next
    case False
    then have pos: "remaining > 0" by (simp add: word_greater_zero_iff)
    obtain c where c: "chunk_size_for addr remaining = Emit c" "chunk_ok (addr, c)" "c \<le> remaining"
      "unat (remaining - c) = unat remaining - unat c"
      using chunk_size_for_ok[OF False] by blast
    from c(3) have cle: "unat c \<le> unat remaining" by (simp add: word_le_nat_alt)
    let ?s1 = "issue_chunk dev p h addr c n s"
    let ?poll = "poll_loop fuel dev p (chunk_tail0 (addr - h) c) (chunk_tail1 (addr - h) c)
                   (jiffies ?s1 + dma_timeout_jiffies p) (dma_poll_sleep_us p) 0 ?s1"
    have s1: "bar1_writes ?s1 = bar1_writes s @ chunk_regs (addr, c)" "emitted ?s1 = emitted s @ [(addr, c)]"
      by (simp_all add: issue_chunk_logs chunk_regs_def)
    show ?thesis
    proof (cases ?poll)
      case None
      with pos c(1) Suc.prems show ?thesis by (simp add: Let_def)
    next
      case (Some res)
      obtain pr s2 where res: "res = (pr, s2)" by (cases res)
      from Some res poll_loop_logs[of fuel dev p _ _ _ _ _ ?s1 pr s2]
      have s2: "bar1_writes s2 = bar1_writes ?s1" "emitted s2 = emitted ?s1" by simp_all
      show ?thesis
      proof (cases pr)
        case TimedOut
        with pos c(1) Some res Suc.prems have "r = Inl ETIMEDOUT" "s' = s2" by (simp_all add: Let_def)
        then show ?thesis
          using s1 s2 c(2) cle by (intro exI[of _ "[(addr, c)]"]) simp
      next
        case Completed
        with pos c(1) Some res Suc.prems have
          "transfer_loop fuel dev p h (remaining - c) (addr + c) (n + 1) (chunk_pacing dev p s2) = Some (r, s')"
          by (simp add: Let_def)
        from Suc.IH[OF this] obtain cs where cs:
          "emitted s' = emitted (chunk_pacing dev p s2) @ cs"
          "bar1_writes s' = bar1_writes (chunk_pacing dev p s2) @ concat (map chunk_regs cs)"
          "contiguous_from (addr + c) cs"
          "\<forall>c \<in> set cs. chunk_ok c"
          "sum_list (map (\<lambda>c. unat (snd c)) cs) \<le> unat (remaining - c)"
          "r = Inr () \<longrightarrow> sum_list (map (\<lambda>c. unat (snd c)) cs) = unat (remaining - c)"
          by blast
        show ?thesis
          using cs s1 s2 c(2) c(4) cle
          by (intro exI[of _ "(addr, c) # cs"]) (simp add: chunk_pacing_logs)
      qed
    qed
  qed
qed

lemma issue_chunk_mem:
  "mem (issue_chunk dev p h a c n s) =
     fst (dev (bar1_writes s @ chunk_regs (a, c)) 0
            (write_sentinels (a - h) c
               (if verbose_chunk p n then prefill (a - h) (mem s) else mem s),
             jiffies s))"
  by (simp add: issue_chunk_def Let_def env_step_def fpga_dma_write_reg_def chunk_regs_def)

lemma transfer_loop_completes:
  assumes resp: "\<forall>regs us hm t0 t1. \<not> sentinel_pending t0 t1 (fst (dev regs us hm))"
  shows "unat remaining < fuel \<Longrightarrow>
           \<exists>s'. transfer_loop fuel dev p h remaining addr n s = Some (Inr (), s')"
proof (induction fuel arbitrary: remaining addr n s)
  case 0
  then show ?case by simp
next
  case (Suc fuel)
  show ?case
  proof (cases "remaining = 0")
    case True
    then show ?thesis by simp
  next
    case False
    then have pos: "remaining > 0" by (simp add: word_greater_zero_iff)
    obtain c where c: "chunk_size_for addr remaining = Emit c" "chunk_ok (addr, c)" "c \<le> remaining"
      "unat (remaining - c) = unat remaining - unat c"
      using chunk_size_for_ok[OF False] by blast
    from c(2) have "c \<noteq> 0" by (simp add: chunk_ok_def)
    then have cpos: "0 < unat c" by (simp add: unat_gt_0)
    from False have rpos: "0 < unat remaining" by (simp add: unat_gt_0)
    with Suc.prems obtain f where f: "fuel = Suc f" by (cases fuel) auto
    let ?s1 = "issue_chunk dev p h addr c n s"
    have np: "\<not> sentinel_pending (chunk_tail0 (addr - h) c) (chunk_tail1 (addr - h) c) (mem ?s1)"
      using resp by (simp add: issue_chunk_mem)
    have poll: "poll_loop fuel dev p (chunk_tail0 (addr - h) c) (chunk_tail1 (addr - h) c)
                   (jiffies ?s1 + dma_timeout_jiffies p) (dma_poll_sleep_us p) 0 ?s1 = Some (Completed, ?s1)"
      using np f by simp
    have "unat (remaining - c) < fuel" using c(4) cpos rpos Suc.prems by arith
    from Suc.IH[OF this, of "addr + c" "n + 1" "chunk_pacing dev p ?s1"]
    obtain s' where "transfer_loop fuel dev p h (remaining - c) (addr + c) (n + 1) (chunk_pacing dev p ?s1)
        = Some (Inr (), s')" by blast
    then show ?thesis using pos c(1) poll by (simp add: Let_def)
  qed
qed

subsection \<open>Where the sentinels land\<close>

text \<open>
  For a chunk of at least four bytes both sentinel words lie inside the chunk, so the
  stores that precede a chunk's command touch no byte outside its own range.
\<close>

lemma store32_outside:
  "x \<noteq> a \<Longrightarrow> x \<noteq> a + 1 \<Longrightarrow> x \<noteq> a + 2 \<Longrightarrow> x \<noteq> a + 3 \<Longrightarrow> store32 m a v x = m x"
  by (simp add: store32_def)

lemma word_sub_lt:
  fixes c j :: u64
  assumes "j \<noteq> 0" "j \<le> c"
  shows "c - j < c"
proof -
  from assms have "0 < unat j" "unat j \<le> unat c" by (simp_all add: unat_gt_0 word_le_nat_alt)
  moreover from assms have "unat (c - j) = unat c - unat j" by (simp add: unat_sub)
  ultimately show ?thesis by (simp add: word_less_nat_alt)
qed

lemma tail_word_inside:
  fixes off c x :: u64
  assumes out: "\<not> (x - off < c)" and j: "j \<noteq> 0" "j \<le> c"
  shows "x \<noteq> off + c - j"
proof
  assume "x = off + c - j"
  then have "x - off = c - j" by simp
  with word_sub_lt[OF j] out show False by simp
qed

lemma sentinels_inside_chunk:
  fixes off c x :: u64
  assumes c4: "4 \<le> c" and out: "\<not> (x - off < c)"
  shows "write_sentinels off c m x = m x"
proof -
  have le: "(1::u64) \<le> c" "(2::u64) \<le> c" "(3::u64) \<le> c"
    using c4 by (simp_all add: word_le_nat_alt)
  have t0: "store32 m' (chunk_tail0 off c) v x = m' x" for m' v
  proof (rule store32_outside)
    show "x \<noteq> chunk_tail0 off c"
      using tail_word_inside[OF out _ c4] by (simp add: chunk_tail0_def)
    have "x \<noteq> off + c - 3" using tail_word_inside[OF out _ le(3)] by simp
    then show "x \<noteq> chunk_tail0 off c + 1" by (simp add: chunk_tail0_def)
    have "x \<noteq> off + c - 2" using tail_word_inside[OF out _ le(2)] by simp
    then show "x \<noteq> chunk_tail0 off c + 2" by (simp add: chunk_tail0_def)
    have "x \<noteq> off + c - 1" using tail_word_inside[OF out _ le(1)] by simp
    then show "x \<noteq> chunk_tail0 off c + 3" by (simp add: chunk_tail0_def)
  qed
  show ?thesis
  proof (cases "8 \<le> c")
    case False
    then show ?thesis by (simp add: write_sentinels_def chunk_tail1_def t0)
  next
    case True
    then have le8: "(5::u64) \<le> c" "(6::u64) \<le> c" "(7::u64) \<le> c"
      by (simp_all add: word_le_nat_alt)
    have t1: "store32 m' (chunk_tail0 off c - 4) v x = m' x" for m' v
    proof (rule store32_outside)
      have "x \<noteq> off + c - 8" using tail_word_inside[OF out _ True] by simp
      then show "x \<noteq> chunk_tail0 off c - 4" by (simp add: chunk_tail0_def)
      have "x \<noteq> off + c - 7" using tail_word_inside[OF out _ le8(3)] by simp
      then show "x \<noteq> chunk_tail0 off c - 4 + 1" by (simp add: chunk_tail0_def)
      have "x \<noteq> off + c - 6" using tail_word_inside[OF out _ le8(2)] by simp
      then show "x \<noteq> chunk_tail0 off c - 4 + 2" by (simp add: chunk_tail0_def)
      have "x \<noteq> off + c - 5" using tail_word_inside[OF out _ le8(1)] by simp
      then show "x \<noteq> chunk_tail0 off c - 4 + 3" by (simp add: chunk_tail0_def)
    qed
    from True show ?thesis by (simp add: write_sentinels_def chunk_tail1_def t0 t1)
  qed
qed


text \<open>
  A chunk's timeout ends the transfer at once with \<open>ETIMEDOUT\<close>, in the state in which the
  poll gave up; by \<open>transfer_loop_chunks\<close> the register writes of the whole call are then the
  three writes of each issued chunk in order, every chunk once.
\<close>

lemma timeout_aborts_transfer:
  assumes "remaining \<noteq> 0" and "chunk_size_for addr remaining = Emit c"
    and "poll_loop fuel dev p (chunk_tail0 (addr - h) c) (chunk_tail1 (addr - h) c)
           (jiffies (issue_chunk dev p h addr c n s) + dma_timeout_jiffies p) (dma_poll_sleep_us p) 0
           (issue_chunk dev p h addr c n s) = Some (TimedOut, s2)"
  shows "transfer_loop (Suc fuel) dev p h remaining addr n s = Some (Inl ETIMEDOUT, s2)"
proof -
  from assms(1) have "remaining > 0" by (simp add: word_greater_zero_iff)
  with assms(2,3) show ?thesis by (simp add: Let_def)
qed

subsection \<open>Concrete runs\<close>

lemma filling_device_responsive:
  "\<not> sentinel_pending t0 t1 (fst (filling_device 0x11 regs us hm))"
  by (simp add: sentinel_pending_def filling_device_def load32_def tail_sentinel0_def tail_sentinel1_def
      split: option.splits)

lemma not_8_le_1: "\<not> (8 :: u64) \<le> 1"
  by (simp add: word_le_nat_alt)


lemmas dma_eval =
  fpga_dma_perform_transfer_def chunk_size_for_def DMA_MAX_LEN_BYTES_def DMA_MAX_LEN_DWORDS_def
  issue_chunk_def Let_def env_step_def fpga_dma_write_reg_def test_params_def idle_state_def
  verbose_chunk_def sentinel_pending_def load32_def store32_def write_sentinels_def
  chunk_tail0_def chunk_tail1_def tail_sentinel0_def tail_sentinel1_def
  chunk_pacing_def time_after_def backoff_def observe_def

lemma run_two_chunks:
  "observe [] (fpga_dma_perform_transfer (Suc (Suc (Suc (Suc 0)))) (filling_device 0x11) test_params
                 0x10000F00 0x300 idle_state)
     = Some (Inr (), [(0x10000F00, 0x100), (0x10001000, 0x200)], [])"
  by (simp add: dma_eval filling_device_def)

subsection \<open>What the registers tell the device\<close>

text \<open>
  The two address registers carry the chunk's address, and the length field of the command
  carries the chunk's size in DWORDs, rounded up, minus one; so the device is told the
  chunk's address and its size rounded up to a multiple of four bytes. When the start
  address and the size of the transfer are multiples of four, so is every chunk size, and
  the device is told exactly the chunks.
\<close>

lemma addr_halves: "ucast (lower_32_bits a) OR push_bit 32 (ucast (upper_32_bits a)) = a"
  unfolding lower_32_bits_def upper_32_bits_def
  by (rule bit_word_eqI) (auto simp add: bit_simps)

lemma len_field:
  fixes l :: u64
  assumes "l \<noteq> 0" and "l \<le> DMA_MAX_LEN_BYTES"
  shows "unat (cmd_reg l AND DMA_CMD_LEN_MASK) + 1 = (unat l + 3) div 4"
proof -
  from assms have pos: "0 < unat l" and le: "unat l \<le> 4096"
    by (simp_all add: unat_gt_0 DMA_MAX_LEN_BYTES_def DMA_MAX_LEN_DWORDS_def word_le_nat_alt)
  have sum: "unat (l + 3) = unat l + 3" using le by (simp add: unat_add_lem[THEN iffD1])
  have q: "unat ((l + 3) div 4) = (unat l + 3) div 4" by (simp add: unat_div sum)
  have qb: "(unat l + 3) div 4 \<le> 1024" "1 \<le> (unat l + 3) div 4" using pos le by simp_all
  have d: "unat (length_in_dwords l) = (unat l + 3) div 4"
    using q qb by (simp add: length_in_dwords_def unsigned_ucast_eq take_bit_nat_eq_self)
  have c: "unat (cmd_length l) = (unat l + 3) div 4 - 1"
    using d qb by (simp add: cmd_length_def unat_sub word_le_nat_alt)
  have fl: "(DMA_CMD_64BIT_ADDR OR DMA_CMD_WRITE) AND DMA_CMD_LEN_MASK = 0"
    by (simp add: DMA_CMD_LEN_MASK_def DMA_CMD_64BIT_ADDR_def DMA_CMD_WRITE_def)
  have "cmd_reg l AND DMA_CMD_LEN_MASK =
          ((cmd_length l AND DMA_CMD_LEN_MASK) OR (DMA_CMD_64BIT_ADDR OR DMA_CMD_WRITE)) AND DMA_CMD_LEN_MASK"
    by (simp add: cmd_reg_def or.assoc)
  also have "\<dots> = ((cmd_length l AND DMA_CMD_LEN_MASK) AND DMA_CMD_LEN_MASK) OR
                    ((DMA_CMD_64BIT_ADDR OR DMA_CMD_WRITE) AND DMA_CMD_LEN_MASK)"
    by (simp only: bit.conj_disj_distrib2)
  also have "\<dots> = cmd_length l AND DMA_CMD_LEN_MASK"
    by (simp add: fl and.assoc)
  finally have m: "cmd_reg l AND DMA_CMD_LEN_MASK = cmd_length l AND DMA_CMD_LEN_MASK" .
  have lt: "cmd_length l < 2 ^ 10" using c qb by (simp add: word_less_nat_alt)
  have mk: "(0x3FF :: u32) = mask 10" by (simp add: mask_eq_exp_minus_1)
  have "cmd_length l AND mask 10 = cmd_length l" using lt by (rule less_mask_eq)
  then have "cmd_length l AND DMA_CMD_LEN_MASK = cmd_length l"
    by (simp add: DMA_CMD_LEN_MASK_def mk)
  with m c qb show ?thesis by simp
qed


lemma commanded_chunk_regs:
  assumes "snd c \<noteq> 0" and "snd c \<le> DMA_MAX_LEN_BYTES"
  shows "commanded (chunk_regs c @ rest) = (fst c, 4 * ((unat (snd c) + 3) div 4)) # commanded rest"
  using len_field[OF assms] by (simp add: chunk_regs_def addr_halves)

lemma commanded_chunks:
  "\<forall>c \<in> set cs. chunk_ok c \<Longrightarrow>
     commanded (concat (map chunk_regs cs)) = map (\<lambda>c. (fst c, 4 * ((unat (snd c) + 3) div 4))) cs"
proof (induction cs)
  case Nil
  show ?case by simp
next
  case (Cons c cs)
  then have "snd c \<noteq> 0" "snd c \<le> DMA_MAX_LEN_BYTES" by (simp_all add: chunk_ok_def)
  from commanded_chunk_regs[OF this, of "concat (map chunk_regs cs)"] Cons show ?case by simp
qed

lemma dvd4_chunk:
  fixes a r :: nat
  assumes "4 dvd a" and "4 dvd r"
  shows "4 dvd min (min r 4096) (4096 - a mod 4096)"
proof -
  have "(4::nat) dvd 4096" by simp
  with assms(1) have "4 dvd a mod 4096" by (simp add: dvd_mod)
  then have "4 dvd 4096 - a mod 4096" by (simp add: dvd_diff_nat)
  with assms(2) show ?thesis by (simp add: min_def)
qed

lemma dvd4_unat_add:
  fixes a c :: u64
  assumes "4 dvd unat a" and "4 dvd unat c"
  shows "4 dvd unat (a + c)"
proof -
  have "unat (a + c) = (unat a + unat c) mod 2 ^ 64" by (simp add: unat_word_ariths)
  moreover have "(4::nat) dvd 2 ^ 64" by simp
  ultimately show ?thesis using assms by (simp add: dvd_mod)
qed

lemma transfer_loop_dwords:
  "transfer_loop fuel dev p h remaining addr n s = Some (r, s') \<Longrightarrow>
     4 dvd unat addr \<Longrightarrow> 4 dvd unat remaining \<Longrightarrow>
     \<exists>cs. emitted s' = emitted s @ cs \<and> (\<forall>c \<in> set cs. 4 dvd unat (snd c))"
proof (induction fuel arbitrary: remaining addr n s)
  case 0
  then show ?case by simp
next
  case (Suc fuel)
  show ?case
  proof (cases "remaining = 0")
    case True
    with Suc.prems show ?thesis by auto
  next
    case False
    then have pos: "remaining > 0" by (simp add: word_greater_zero_iff)
    obtain c where c: "chunk_size_for addr remaining = Emit c" "chunk_ok (addr, c)" "c \<le> remaining"
      "unat (remaining - c) = unat remaining - unat c"
      using chunk_size_for_ok[OF False] by blast
    obtain c' where c': "chunk_size_for addr remaining = Emit c'"
      "unat c' = min (min (unat remaining) 4096) (4096 - unat addr mod 4096)"
      using chunk_size_for_nat by blast
    from c(1) c'(1) have "c' = c" by simp
    with c'(2) have d: "4 dvd unat c" using dvd4_chunk[OF Suc.prems(2,3)] by simp
    have da: "4 dvd unat (addr + c)" by (rule dvd4_unat_add[OF Suc.prems(2) d])
    have dr: "4 dvd unat (remaining - c)" using c(4) d Suc.prems(3) by (simp add: dvd_diff_nat)
    let ?s1 = "issue_chunk dev p h addr c n s"
    let ?poll = "poll_loop fuel dev p (chunk_tail0 (addr - h) c) (chunk_tail1 (addr - h) c)
                   (jiffies ?s1 + dma_timeout_jiffies p) (dma_poll_sleep_us p) 0 ?s1"
    have s1: "emitted ?s1 = emitted s @ [(addr, c)]" by (simp add: issue_chunk_logs)
    show ?thesis
    proof (cases ?poll)
      case None
      with pos c(1) Suc.prems show ?thesis by (simp add: Let_def)
    next
      case (Some res)
      obtain pr s2 where res: "res = (pr, s2)" by (cases res)
      from Some res poll_loop_logs[of fuel dev p _ _ _ _ _ ?s1 pr s2]
      have s2: "emitted s2 = emitted ?s1" by simp
      show ?thesis
      proof (cases pr)
        case TimedOut
        with pos c(1) Some res Suc.prems have "s' = s2" by (simp add: Let_def)
        then show ?thesis using s1 s2 d by (intro exI[of _ "[(addr, c)]"]) simp
      next
        case Completed
        with pos c(1) Some res Suc.prems have
          "transfer_loop fuel dev p h (remaining - c) (addr + c) (n + 1) (chunk_pacing dev p s2) = Some (r, s')"
          by (simp add: Let_def)
        from Suc.IH[OF this da dr] obtain cs where cs:
          "emitted s' = emitted (chunk_pacing dev p s2) @ cs" "\<forall>c \<in> set cs. 4 dvd unat (snd c)"
          by blast
        show ?thesis using cs s1 s2 d
          by (intro exI[of _ "(addr, c) # cs"]) (simp add: chunk_pacing_logs)
      qed
    qed
  qed
qed

lemma round_dword: "4 dvd (n::nat) \<Longrightarrow> 4 * ((n + 3) div 4) = n"
  by (elim dvdE) simp


text \<open>
  The backoff with a maximum above \<open>2^30\<close>: doubling the sleep time \<open>2^30\<close> sets the sign bit.
\<close>

lemma backoff_shift_wraps:
  "backoff \<lparr>dma_timeout_jiffies = 2, dma_chunk_delay_us = 0, dma_poll_sleep_us = 5,
            dma_poll_sleep_max_us = 0x7FFFFFFF, dma_poll_backoff_polls = 1, dma_verbose = False\<rparr>
     0x40000000 0 = (0x80000000, 0) \<and> sint (0x80000000 :: s32) < 0"
  by (simp add: backoff_def)

subsection \<open>Concrete register logs\<close>

lemma run_two_chunks_regs:
  "\<exists>s'. fpga_dma_perform_transfer (Suc (Suc (Suc (Suc 0)))) (filling_device 0x11) test_params 0x10000F00 0x300 idle_state
           = Some (Inr (), s') \<and>
         emitted s' = [(0x10000F00, 0x100), (0x10001000, 0x200)] \<and>
         bar1_writes s' = [(0x110, 0x10000F00), (0x120, 0), (0x100, 0x0101003F),
                           (0x110, 0x10001000), (0x120, 0), (0x100, 0x0101007F)]"
  by (simp add: dma_eval filling_device_def lower_32_bits_def upper_32_bits_def cmd_reg_def cmd_length_def
        length_in_dwords_def DMA_CMD_LEN_MASK_def DMA_CMD_64BIT_ADDR_def DMA_CMD_WRITE_def
        BAR1_DMA_CMD_REG_def BAR1_DMA_L_ADDR_def BAR1_DMA_H_ADDR_def)

lemma run_odd_size_regs:
  "\<exists>s'. fpga_dma_perform_transfer (Suc (Suc (Suc (Suc 0)))) (filling_device 0x11) test_params 0x10000000 4097 idle_state
           = Some (Inr (), s') \<and>
         emitted s' = [(0x10000000, 4096), (0x10001000, 1)] \<and>
         bar1_writes s' = [(0x110, 0x10000000), (0x120, 0), (0x100, 0x010103FF),
                           (0x110, 0x10001000), (0x120, 0), (0x100, 0x01010000)]"
  by (simp add: dma_eval filling_device_def lower_32_bits_def upper_32_bits_def cmd_reg_def cmd_length_def
        length_in_dwords_def DMA_CMD_LEN_MASK_def DMA_CMD_64BIT_ADDR_def DMA_CMD_WRITE_def
        BAR1_DMA_CMD_REG_def BAR1_DMA_L_ADDR_def BAR1_DMA_H_ADDR_def not_8_le_1)

lemma commanded_two_chunks:
  "commanded [(0x110, 0x10000F00), (0x120, 0), (0x100, 0x0101003F),
              (0x110, 0x10001000), (0x120, 0), (0x100, 0x0101007F)]
     = [(0x10000F00, 256), (0x10001000, 512)]"
  by (simp add: BAR1_DMA_CMD_REG_def BAR1_DMA_L_ADDR_def BAR1_DMA_H_ADDR_def DMA_CMD_LEN_MASK_def)

lemma commanded_odd_size:
  "commanded [(0x110, 0x10000000), (0x120, 0), (0x100, 0x010103FF),
              (0x110, 0x10001000), (0x120, 0), (0x100, 0x01010000)]
     = [(0x10000000, 4096), (0x10001000, 4)]"
  by (simp add: BAR1_DMA_CMD_REG_def BAR1_DMA_L_ADDR_def BAR1_DMA_H_ADDR_def DMA_CMD_LEN_MASK_def)

subsection \<open>The claims about the driver\<close>

text \<open>
  Claim C1, as the code has it. For a chunk of 4096 bytes the driver computes 1024 DWORDs
  and writes their number minus one, 1023 (\<open>0x3FF\<close>), into bits 9 to 0 of the command
  word; with the 64-bit-address flag (bit 16) and the write flag (bit 24) the word is
  \<open>0x010103FF\<close>, and it is the last of the three register writes of the chunk.
\<close>

theorem cmd_length_field_is_dwords_minus_one:
  "cmd_reg 4096 AND DMA_CMD_LEN_MASK = 1023 \<and>
   length_in_dwords 4096 = 1024 \<and> cmd_length 4096 = 1023 \<and>
   cmd_reg 4096 = 0x010103FF \<and>
   last (bar1_writes (issue_chunk dev p dma_handle current_addr 4096 chunk_num s))
     = (BAR1_DMA_CMD_REG, 0x010103FF)"
  by (simp add: issue_chunk_logs)
     (simp add: cmd_reg_def cmd_length_def length_in_dwords_def DMA_CMD_LEN_MASK_def
        DMA_CMD_64BIT_ADDR_def DMA_CMD_WRITE_def)

text \<open>
  Claim C1 as stated fails: the length field of the command word for a 4096-byte chunk is
  not 0.
\<close>

theorem cmd_length_field_not_zero: "cmd_reg 4096 AND DMA_CMD_LEN_MASK \<noteq> 0"
  by (simp add: cmd_reg_def cmd_length_def length_in_dwords_def DMA_CMD_LEN_MASK_def
        DMA_CMD_64BIT_ADDR_def DMA_CMD_WRITE_def)

text \<open>
  Claim C8. With a positive remaining byte count the loop body commits a chunk size, and
  that size is not zero; at a 4096-aligned address the size is the minimum of the remaining
  count and \<^verbatim>\<open>DMA_MAX_LEN_BYTES\<close>; the realign branch is never taken, for any address and any
  remaining count; and no chunk that a call of the transfer issues has size zero.
\<close>

theorem chunk_size_never_zero:
  "(remaining \<noteq> 0 \<longrightarrow>
      (\<exists>cs. chunk_size_for current_addr remaining = Emit cs \<and> cs \<noteq> 0 \<and> 0 < unat cs)) \<and>
   (current_addr AND 0xFFF = 0 \<longrightarrow>
      chunk_size_for current_addr remaining = Emit (min remaining DMA_MAX_LEN_BYTES)) \<and>
   (\<forall>a. chunk_size_for current_addr remaining \<noteq> Realign a) \<and>
   (fpga_dma_perform_transfer fuel dev p dma_handle size_bytes s = Some (r, s') \<longrightarrow>
      (\<forall>c \<in> set (drop (length (emitted s)) (emitted s')). snd c \<noteq> 0))"
proof (intro conjI impI allI)
  assume r: "remaining \<noteq> 0"
  obtain cs where cs: "chunk_size_for current_addr remaining = Emit cs"
    "unat cs = min (min (unat remaining) 4096) (4096 - unat current_addr mod 4096)"
    using chunk_size_for_nat by blast
  from r have "0 < unat remaining" by (simp add: unat_gt_0)
  moreover have "unat current_addr mod 4096 < 4096" by simp
  ultimately have "0 < unat cs" using cs(2) by simp
  then have "cs \<noteq> 0" by (auto simp add: unat_gt_0)
  with cs(1) \<open>0 < unat cs\<close>
  show "\<exists>cs. chunk_size_for current_addr remaining = Emit cs \<and> cs \<noteq> 0 \<and> 0 < unat cs"
    by blast
next
  assume "current_addr AND 0xFFF = 0"
  then show "chunk_size_for current_addr remaining = Emit (min remaining DMA_MAX_LEN_BYTES)"
    by (rule chunk_size_for_aligned)
next
  fix a show "chunk_size_for current_addr remaining \<noteq> Realign a"
    by (rule chunk_size_for_never_realigns)
next
  assume "fpga_dma_perform_transfer fuel dev p dma_handle size_bytes s = Some (r, s')"
  then have "transfer_loop fuel dev p dma_handle size_bytes dma_handle 0 s = Some (r, s')"
    by (simp add: fpga_dma_perform_transfer_def)
  from transfer_loop_chunks[OF this] obtain cs where
    "emitted s' = emitted s @ cs" "\<forall>c \<in> set cs. chunk_ok c" by blast
  then show "\<forall>c \<in> set (drop (length (emitted s)) (emitted s')). snd c \<noteq> 0"
    by (simp add: chunk_ok_def)
qed

text \<open>
  Instances: 0x300 bytes remaining at page offset 0xF00 give a chunk of 0x100 bytes; at an
  aligned address a frame of 0x1C2000 bytes gives 4096 and 0x300 bytes give 0x300; and the
  two-chunk run of the simulated device, whose chunks have 0x100 and 0x200 bytes.
\<close>

theorem chunk_size_never_zero_witness:
  "(0x300 :: u64) \<noteq> 0 \<and> chunk_size_for 0x10000F00 0x300 = Emit 0x100 \<and>
   (0x10000000 :: u64) AND 0xFFF = 0 \<and>
   chunk_size_for 0x10000000 0x1C2000 = Emit 4096 \<and>
   chunk_size_for 0x10000000 0x300 = Emit 0x300 \<and>
   observe [] (fpga_dma_perform_transfer (Suc (Suc (Suc (Suc 0)))) (filling_device 0x11) test_params
                 0x10000F00 0x300 idle_state)
     = Some (Inr (), [(0x10000F00, 0x100), (0x10001000, 0x200)], [])"
proof -
  obtain r s' where run:
    "fpga_dma_perform_transfer (Suc (Suc (Suc (Suc 0)))) (filling_device 0x11) test_params 0x10000F00 0x300 idle_state
       = Some (r, s')"
    using run_two_chunks by (auto simp add: observe_def split: option.splits)
  note t = chunk_size_never_zero[of "0x300" "0x10000F00" "(Suc (Suc (Suc (Suc 0))))" "filling_device 0x11" test_params
             "0x10000F00" "0x300" idle_state r s']
  from t run have nz: "\<forall>c \<in> set (drop (length (emitted idle_state)) (emitted s')). snd c \<noteq> 0"
    by blast
  show ?thesis
    using nz run_two_chunks
      chunk_size_never_zero[of "0x1C2000" "0x10000000" 0 "filling_device 0x11" test_params 0 0 idle_state r s']
      chunk_size_never_zero[of "0x300" "0x10000000" 0 "filling_device 0x11" test_params 0 0 idle_state r s']
      t
    by (simp add: chunk_size_for_def DMA_MAX_LEN_BYTES_def DMA_MAX_LEN_DWORDS_def)
qed

text \<open>
  Claim C3. Whatever the start address, the size, the device and the parameters: when a
  call of the transfer returns, every chunk it has issued is no longer than
  \<^verbatim>\<open>DMA_MAX_LEN_BYTES\<close> and lies within one 4096-byte page (its first and its last byte have
  the same page number), the chunks follow one another from the start address without gap
  or overlap, and their lengths add up to at most the requested size, and to exactly the
  requested size when the call returns 0. These chunks are what the call has written to
  the device: its register writes are the three writes of each chunk in order and nothing
  else, and read back as the device reads them they give each chunk's address and its
  length rounded up to whole DWORDs. When the start address and the size are multiples of
  four, the commands read back from the registers are the chunks themselves; no commanded
  byte range crosses a page boundary or exceeds 4096 bytes, and the commanded lengths add
  up to the requested size when the call returns 0. With a device that overwrites the
  sentinels at every step, the call does return 0 as soon as the bound on the loop turns
  exceeds the size.
\<close>

theorem transfer_chunks_stay_in_page:
  "(fpga_dma_perform_transfer fuel dev p dma_handle size_bytes s = Some (r, s') \<and> emitted s = [] \<longrightarrow>
      (\<forall>c \<in> set (emitted s').
          snd c \<noteq> 0 \<and> snd c \<le> DMA_MAX_LEN_BYTES \<and>
          unat (fst c) div 4096 = (unat (fst c) + unat (snd c) - 1) div 4096) \<and>
      contiguous_from dma_handle (emitted s') \<and>
      sum_list (map (\<lambda>c. unat (snd c)) (emitted s')) \<le> unat size_bytes \<and>
      (r = Inr () \<longrightarrow> sum_list (map (\<lambda>c. unat (snd c)) (emitted s')) = unat size_bytes) \<and>
      drop (length (bar1_writes s)) (bar1_writes s') = concat (map chunk_regs (emitted s')) \<and>
      commanded (drop (length (bar1_writes s)) (bar1_writes s')) =
        map (\<lambda>c. (fst c, 4 * ((unat (snd c) + 3) div 4))) (emitted s') \<and>
      (4 dvd unat dma_handle \<and> 4 dvd unat size_bytes \<longrightarrow>
         commanded (drop (length (bar1_writes s)) (bar1_writes s')) =
           map (\<lambda>c. (fst c, unat (snd c))) (emitted s') \<and>
         (\<forall>c \<in> set (commanded (drop (length (bar1_writes s)) (bar1_writes s'))).
             0 < snd c \<and> snd c \<le> 4096 \<and>
             unat (fst c) div 4096 = (unat (fst c) + snd c - 1) div 4096) \<and>
         sum_list (map snd (commanded (drop (length (bar1_writes s)) (bar1_writes s'))))
           \<le> unat size_bytes \<and>
         (r = Inr () \<longrightarrow>
            sum_list (map snd (commanded (drop (length (bar1_writes s)) (bar1_writes s'))))
              = unat size_bytes))) \<and>
   ((\<forall>regs us hm t0 t1. \<not> sentinel_pending t0 t1 (fst (dev regs us hm))) \<and> unat size_bytes < fuel \<longrightarrow>
      (\<exists>s'. fpga_dma_perform_transfer fuel dev p dma_handle size_bytes s = Some (Inr (), s')))"
proof (intro conjI impI)
  assume a: "fpga_dma_perform_transfer fuel dev p dma_handle size_bytes s = Some (r, s') \<and> emitted s = []"
  then have run: "transfer_loop fuel dev p dma_handle size_bytes dma_handle 0 s = Some (r, s')"
    by (simp add: fpga_dma_perform_transfer_def)
  from transfer_loop_chunks[OF run] a obtain cs where cs:
    "emitted s' = cs" "contiguous_from dma_handle cs" "\<forall>c \<in> set cs. chunk_ok c"
    "sum_list (map (\<lambda>c. unat (snd c)) cs) \<le> unat size_bytes"
    "r = Inr () \<longrightarrow> sum_list (map (\<lambda>c. unat (snd c)) cs) = unat size_bytes"
    "bar1_writes s' = bar1_writes s @ concat (map chunk_regs cs)"
    by auto
  let ?regs = "drop (length (bar1_writes s)) (bar1_writes s')"
  have regs: "?regs = concat (map chunk_regs cs)" using cs(6) by simp
  have cmd: "commanded ?regs = map (\<lambda>c. (fst c, 4 * ((unat (snd c) + 3) div 4))) cs"
    using regs commanded_chunks[OF cs(3)] by simp
  show "\<forall>c \<in> set (emitted s').
          snd c \<noteq> 0 \<and> snd c \<le> DMA_MAX_LEN_BYTES \<and>
          unat (fst c) div 4096 = (unat (fst c) + unat (snd c) - 1) div 4096"
    using cs(1,3) by (simp add: chunk_ok_def)
  show "contiguous_from dma_handle (emitted s')" using cs(1,2) by simp
  show "sum_list (map (\<lambda>c. unat (snd c)) (emitted s')) \<le> unat size_bytes" using cs(1,4) by simp
  show "r = Inr () \<Longrightarrow> sum_list (map (\<lambda>c. unat (snd c)) (emitted s')) = unat size_bytes"
    using cs(1,5) by simp
  show "?regs = concat (map chunk_regs (emitted s'))" using regs cs(1) by simp
  show "commanded ?regs = map (\<lambda>c. (fst c, 4 * ((unat (snd c) + 3) div 4))) (emitted s')"
    using cmd cs(1) by simp
  {
    assume al: "4 dvd unat dma_handle \<and> 4 dvd unat size_bytes"
    from transfer_loop_dwords[OF run] al a cs(1) have dw: "\<forall>c \<in> set cs. 4 dvd unat (snd c)"
      by auto
    have eq: "commanded ?regs = map (\<lambda>c. (fst c, unat (snd c))) cs"
      using cmd dw by (simp add: round_dword)
    have okn: "\<forall>c \<in> set cs. 0 < unat (snd c) \<and> unat (snd c) \<le> 4096 \<and>
          unat (fst c) div 4096 = (unat (fst c) + unat (snd c) - 1) div 4096"
      using cs(3)
      by (auto simp add: chunk_ok_def DMA_MAX_LEN_BYTES_def DMA_MAX_LEN_DWORDS_def
            word_le_nat_alt unat_gt_0)
    have sm: "sum_list (map snd (commanded ?regs)) = sum_list (map (\<lambda>c. unat (snd c)) cs)"
      by (simp add: eq comp_def)
    show "commanded ?regs = map (\<lambda>c. (fst c, unat (snd c))) (emitted s')" using eq cs(1) by simp
    show "\<forall>c \<in> set (commanded ?regs). 0 < snd c \<and> snd c \<le> 4096 \<and>
             unat (fst c) div 4096 = (unat (fst c) + snd c - 1) div 4096"
      using okn by (simp add: eq)
    show "sum_list (map snd (commanded ?regs)) \<le> unat size_bytes" using sm cs(4) by simp
    show "r = Inr () \<Longrightarrow> sum_list (map snd (commanded ?regs)) = unat size_bytes"
      using sm cs(5) by simp
  }
next
  assume "(\<forall>regs us hm t0 t1. \<not> sentinel_pending t0 t1 (fst (dev regs us hm))) \<and> unat size_bytes < fuel"
  then show "\<exists>s'. fpga_dma_perform_transfer fuel dev p dma_handle size_bytes s = Some (Inr (), s')"
    unfolding fpga_dma_perform_transfer_def
    using transfer_loop_completes by blast
qed

text \<open>
  Instances. 0x300 bytes to the address 0x10000F00: the first chunk is cut to the 0x100
  bytes up to the page boundary, the second has the other 0x200 bytes, the six register
  writes carry these addresses with the length fields 63 and 127, and the commands read
  back are 256 and 512 bytes. 4097 bytes to a page-aligned address: the chunks have 4096
  bytes and 1 byte, and the second command asks for one DWORD. The simulated device, which
  overwrites the sentinels at every step, lets every call with a bound above the size
  return 0.
\<close>

theorem transfer_chunks_stay_in_page_witness:
  "(\<exists>s'. fpga_dma_perform_transfer (Suc (Suc (Suc (Suc 0)))) (filling_device 0x11) test_params 0x10000F00 0x300 idle_state
           = Some (Inr (), s') \<and>
         emitted s' = [(0x10000F00, 0x100), (0x10001000, 0x200)] \<and>
         bar1_writes s' = [(0x110, 0x10000F00), (0x120, 0), (0x100, 0x0101003F),
                           (0x110, 0x10001000), (0x120, 0), (0x100, 0x0101007F)] \<and>
         commanded (bar1_writes s') = [(0x10000F00, 256), (0x10001000, 512)] \<and>
         sum_list (map snd (commanded (bar1_writes s'))) = unat (0x300 :: u64)) \<and>
   (4::nat) dvd unat (0x10000F00 :: u64) \<and> (4::nat) dvd unat (0x300 :: u64) \<and>
   (\<exists>s'. fpga_dma_perform_transfer (Suc (Suc (Suc (Suc 0)))) (filling_device 0x11) test_params 0x10000000 4097 idle_state
           = Some (Inr (), s') \<and>
         emitted s' = [(0x10000000, 4096), (0x10001000, 1)] \<and>
         commanded (bar1_writes s') = [(0x10000000, 4096), (0x10001000, 4)]) \<and>
   (\<exists>s'. fpga_dma_perform_transfer 769 (filling_device 0x11) test_params 0x10000F00 0x300 idle_state
            = Some (Inr (), s'))"
proof -
  obtain s1 where run1:
    "fpga_dma_perform_transfer (Suc (Suc (Suc (Suc 0)))) (filling_device 0x11) test_params 0x10000F00 0x300 idle_state
       = Some (Inr (), s1)"
    and em1: "emitted s1 = [(0x10000F00, 0x100), (0x10001000, 0x200)]"
    and regs1: "bar1_writes s1 = [(0x110, 0x10000F00), (0x120, 0), (0x100, 0x0101003F),
                           (0x110, 0x10001000), (0x120, 0), (0x100, 0x0101007F)]"
    using run_two_chunks_regs by blast
  obtain s2 where run2:
    "fpga_dma_perform_transfer (Suc (Suc (Suc (Suc 0)))) (filling_device 0x11) test_params 0x10000000 4097 idle_state
       = Some (Inr (), s2)"
    and em2: "emitted s2 = [(0x10000000, 4096), (0x10001000, 1)]"
    and regs2: "bar1_writes s2 = [(0x110, 0x10000000), (0x120, 0), (0x100, 0x010103FF),
                           (0x110, 0x10001000), (0x120, 0), (0x100, 0x01010000)]"
    using run_odd_size_regs by blast
  have e0: "emitted idle_state = []" "bar1_writes idle_state = []" by (simp_all add: idle_state_def)
  have al: "(4::nat) dvd unat (0x10000F00 :: u64)" "(4::nat) dvd unat (0x300 :: u64)" by simp_all
  note t1 = transfer_chunks_stay_in_page[of "(Suc (Suc (Suc (Suc 0))))" "filling_device 0x11" test_params
             "0x10000F00" "0x300" idle_state "Inr ()" s1]
  have d1: "drop (length (bar1_writes idle_state)) (bar1_writes s1) = bar1_writes s1"
    by (simp add: e0)
  from t1 run1 e0(1) al have
    "sum_list (map snd (commanded (drop (length (bar1_writes idle_state)) (bar1_writes s1))))
       = unat (0x300 :: u64)"
    by blast
  then have sum1: "sum_list (map snd (commanded (bar1_writes s1))) = unat (0x300 :: u64)"
    by (simp only: d1)
  note t2 = transfer_chunks_stay_in_page[of "(Suc (Suc (Suc (Suc 0))))" "filling_device 0x11" test_params
             "0x10000000" "4097" idle_state "Inr ()" s2]
  have d2: "drop (length (bar1_writes idle_state)) (bar1_writes s2) = bar1_writes s2"
    by (simp add: e0)
  from t2 run2 e0(1) have
    "commanded (drop (length (bar1_writes idle_state)) (bar1_writes s2))
       = map (\<lambda>c. (fst c, 4 * ((unat (snd c) + 3) div 4))) (emitted s2)"
    by blast
  then have cmd2:
    "commanded (bar1_writes s2) = map (\<lambda>c. (fst c, 4 * ((unat (snd c) + 3) div 4))) (emitted s2)"
    by (simp only: d2)
  have resp: "\<forall>regs us hm t0 t1. \<not> sentinel_pending t0 t1 (fst (filling_device 0x11 regs us hm))"
    by (simp add: filling_device_responsive)
  have fuel: "unat (0x300 :: u64) < 769" by simp
  from transfer_chunks_stay_in_page[of 769 "filling_device 0x11" test_params
             "0x10000F00" "0x300" idle_state "Inr ()" s1] resp fuel
  have live: "\<exists>s'. fpga_dma_perform_transfer 769 (filling_device 0x11) test_params 0x10000F00 0x300 idle_state
            = Some (Inr (), s')" by blast
  have c1: "commanded (bar1_writes s1) = [(0x10000F00, 256), (0x10001000, 512)]"
    using regs1 commanded_two_chunks by simp
  have c2: "commanded (bar1_writes s2) = [(0x10000000, 4096), (0x10001000, 4)]"
    using cmd2 em2 by simp
  show ?thesis
    using run1 em1 regs1 c1 sum1 al run2 em2 c2 live by blast
qed


text \<open>
  Claim C6, at an input where the code departs from it. A transfer of 4097 bytes to a
  page-aligned buffer has a first chunk of 4096 bytes and a second of one byte. The
  simulated device writes the byte \<open>0x11\<close> to the 4096 bytes of the first chunk and then
  stalls. The call returns \<open>ETIMEDOUT\<close> after issuing each of the two chunks once; but the
  sentinel of the one-byte chunk was stored at offset \<open>4096 + 1 - 4 = 4093\<close>, so bytes 4093,
  4094 and 4095 of the first chunk's data now hold \<open>EF BE AD\<close>, the low bytes of
  \<open>0xDEADBEEF\<close>, and only its fourth byte lies in the second chunk. The same device with a
  transfer of 4096 bytes leaves \<open>0x11\<close> in those three bytes.
\<close>

theorem short_tail_chunk_sentinel_overwrites_previous_chunk:
  "observe [4092, 4093, 4094, 4095, 4096]
     (fpga_dma_perform_transfer (Suc (Suc (Suc (Suc (Suc (Suc (Suc (Suc 0)))))))) (stalling_device 1 0x11) test_params 0x10000000 4097 idle_state)
     = Some (Inl ETIMEDOUT, [(0x10000000, 4096), (0x10001000, 1)], [0x11, 0xEF, 0xBE, 0xAD, 0xDE]) \<and>
   observe [4092, 4093, 4094, 4095, 4096]
     (fpga_dma_perform_transfer (Suc (Suc (Suc (Suc (Suc (Suc (Suc (Suc 0)))))))) (stalling_device 1 0x11) test_params 0x10000000 4096 idle_state)
     = Some (Inr (), [(0x10000000, 4096)], [0x11, 0x11, 0x11, 0x11, 0])"
  by (simp add: dma_eval stalling_device_def not_8_le_1)

end
